theory Spec2Isabelle
  imports Main
begin

section \<open>Bytes, runes and UTF-8\<close>

text \<open>
  A Go string is a sequence of bytes: it is modelled as a \<open>string\<close> (a list of
  8-bit \<open>char\<close>s). A rune is a Go \<open>int32\<close>; no rune arithmetic of the program
  leaves the range, so runes are modelled as \<open>int\<close>. \<open>byte c\<close> is the numeric value
  of a byte and \<open>chr n\<close> is Go's conversion \<open>byte(n)\<close>, which keeps the low 8 bits.
\<close>

abbreviation byte :: "char \<Rightarrow> int" where "byte \<equiv> of_char"
abbreviation chr :: "int \<Rightarrow> char" where "chr \<equiv> char_of"

abbreviation dquote :: char where "dquote \<equiv> CHR 0x22"
abbreviation bslash :: char where "bslash \<equiv> CHR 0x5C"
abbreviation newline :: char where "newline \<equiv> CHR 0x0A"
abbreviation tab :: char where "tab \<equiv> CHR 0x09"

text \<open>Constants of package \<open>unicode/utf8\<close>.\<close>

definition RuneError :: int where "RuneError = 0xFFFD"
definition RuneSelf :: int where "RuneSelf = 0x80"

definition ValidRune :: "int \<Rightarrow> bool" where
  "ValidRune r = ((0 \<le> r \<and> r < 0xD800) \<or> (0xDFFF < r \<and> r \<le> 0x10FFFF))"

text \<open>
  \<open>utf8.DecodeRuneInString\<close>: the first rune of a string and its width in bytes.
  An empty string gives \<open>(RuneError, 0)\<close>, an ill-formed or truncated sequence
  \<open>(RuneError, 1)\<close>. The masks and shifts of the library (\<open>s0 & mask2 << 6\<close> and so
  on) are written with \<open>mod\<close> and multiplication.
\<close>

definition acceptLo :: "int \<Rightarrow> int" where
  "acceptLo s0 = (if s0 = 0xE0 then 0xA0 else if s0 = 0xF0 then 0x90 else 0x80)"

definition acceptHi :: "int \<Rightarrow> int" where
  "acceptHi s0 = (if s0 = 0xED then 0x9F else if s0 = 0xF4 then 0x8F else 0xBF)"

definition DecodeRune :: "string \<Rightarrow> int \<times> nat" where
  "DecodeRune s =
     (case s of
        [] \<Rightarrow> (RuneError, 0)
      | c0 # cs \<Rightarrow>
          let s0 = byte c0 in
          if s0 < 0x80 then (s0, 1)
          else if s0 < 0xC2 \<or> 0xF4 < s0 then (RuneError, 1)
          else
            let sz = (if s0 < 0xE0 then 2 else if s0 < 0xF0 then 3 else 4 :: nat) in
            if length s < sz then (RuneError, 1)
            else
              let s1 = byte (s ! 1) in
              if s1 < acceptLo s0 \<or> acceptHi s0 < s1 then (RuneError, 1)
              else if sz \<le> 2 then ((s0 mod 32) * 64 + s1 mod 64, 2)
              else
                let s2 = byte (s ! 2) in
                if s2 < 0x80 \<or> 0xBF < s2 then (RuneError, 1)
                else if sz \<le> 3 then ((s0 mod 16) * 4096 + (s1 mod 64) * 64 + s2 mod 64, 3)
                else
                  let s3 = byte (s ! 3) in
                  if s3 < 0x80 \<or> 0xBF < s3 then (RuneError, 1)
                  else ((s0 mod 8) * 262144 + (s1 mod 64) * 4096 + (s2 mod 64) * 64 + s3 mod 64, 4))"

text \<open>
  \<open>utf8.AppendRune\<close> (also the conversion \<open>string(rune)\<close>): the UTF-8 encoding of a
  rune; a rune that is no Unicode scalar value is encoded as \<open>RuneError\<close>.
\<close>

definition enc2 :: "int \<Rightarrow> string" where
  "enc2 r = [chr (0xC0 + r div 64), chr (0x80 + r mod 64)]"

definition enc3 :: "int \<Rightarrow> string" where
  "enc3 r = [chr (0xE0 + r div 4096), chr (0x80 + (r div 64) mod 64), chr (0x80 + r mod 64)]"

definition enc4 :: "int \<Rightarrow> string" where
  "enc4 r = [chr (0xF0 + r div 262144), chr (0x80 + (r div 4096) mod 64),
             chr (0x80 + (r div 64) mod 64), chr (0x80 + r mod 64)]"

definition EncodeRune :: "int \<Rightarrow> string" where
  "EncodeRune r =
     (if 0 \<le> r \<and> r \<le> 0x7F then [chr r]
      else if 0 \<le> r \<and> r \<le> 0x7FF then enc2 r
      else if r < 0 \<or> 0x10FFFF < r \<or> (0xD800 \<le> r \<and> r \<le> 0xDFFF) then enc3 RuneError
      else if r \<le> 0xFFFF then enc3 r
      else enc4 r)"

text \<open>The conversion \<open>string([]rune)\<close>.\<close>

definition encodeRunes :: "int list \<Rightarrow> string" where
  "encodeRunes rs = concat (map EncodeRune rs)"

subsection \<open>Facts about decoding, needed to define the loops over strings\<close>

lemma byte_bounds: "0 \<le> byte c \<and> byte c < 256"
proof -
  have "byte c = int (of_char c)" by (simp add: of_nat_of_char)
  moreover have "(of_char c :: nat) < 256" by simp
  ultimately show ?thesis by linarith
qed

lemma byte_ge0 [simp]: "0 \<le> byte c"
  using byte_bounds by blast

lemma byte_lt256 [simp]: "byte c < 256"
  using byte_bounds by blast

lemma chr_byte: "chr (byte c) = c"
  by simp

lemma byte_chr_small: "0 \<le> n \<Longrightarrow> n < 256 \<Longrightarrow> byte (chr n) = n"
  by simp

lemma DecodeRune_Nil [simp]: "DecodeRune [] = (RuneError, 0)"
  by (simp add: DecodeRune_def)

lemma DecodeRune_ascii: "byte c < 0x80 \<Longrightarrow> DecodeRune (c # cs) = (byte c, 1)"
  by (simp add: DecodeRune_def)

lemma DecodeRune_cases:
  assumes "DecodeRune (c # cs) = (r, w)"
  obtains
    (ascii) "byte c < 0x80" "r = byte c" "w = 1"
  | (bad) "0x80 \<le> byte c" "r = RuneError" "w = 1"
  | (two) c1 t where "cs = c1 # t" "0xC2 \<le> byte c" "byte c \<le> 0xDF"
      "0x80 \<le> byte c1" "byte c1 \<le> 0xBF"
      "r = (byte c mod 32) * 64 + byte c1 mod 64" "w = 2"
  | (three) c1 c2 t where "cs = c1 # c2 # t" "0xE0 \<le> byte c" "byte c \<le> 0xEF"
      "acceptLo (byte c) \<le> byte c1" "byte c1 \<le> acceptHi (byte c)"
      "0x80 \<le> byte c2" "byte c2 \<le> 0xBF"
      "r = (byte c mod 16) * 4096 + (byte c1 mod 64) * 64 + byte c2 mod 64" "w = 3"
  | (four) c1 c2 c3 t where "cs = c1 # c2 # c3 # t" "0xF0 \<le> byte c" "byte c \<le> 0xF4"
      "acceptLo (byte c) \<le> byte c1" "byte c1 \<le> acceptHi (byte c)"
      "0x80 \<le> byte c2" "byte c2 \<le> 0xBF" "0x80 \<le> byte c3" "byte c3 \<le> 0xBF"
      "r = (byte c mod 8) * 262144 + (byte c1 mod 64) * 4096
             + (byte c2 mod 64) * 64 + byte c3 mod 64" "w = 4"
proof -
  let ?s0 = "byte c"
  consider "?s0 < 0x80" | "0x80 \<le> ?s0 \<and> (?s0 < 0xC2 \<or> 0xF4 < ?s0)"
    | "0xC2 \<le> ?s0 \<and> ?s0 < 0xE0" | "0xE0 \<le> ?s0 \<and> ?s0 < 0xF0" | "0xF0 \<le> ?s0 \<and> ?s0 \<le> 0xF4"
    by linarith
  then show thesis
  proof cases
    case 1
    with assms show ?thesis
      by (intro ascii) (auto simp: DecodeRune_def Let_def split: if_splits)
  next
    case 2
    with assms show ?thesis
      by (intro bad) (auto simp: DecodeRune_def Let_def split: if_splits)
  next
    case 3
    then have lh: "acceptLo ?s0 = 0x80" "acceptHi ?s0 = 0xBF"
      by (auto simp: acceptLo_def acceptHi_def)
    show ?thesis
    proof (cases cs)
      case Nil
      with 3 assms show ?thesis
        by (intro bad) (auto simp: DecodeRune_def Let_def split: if_splits)
    next
      case (Cons c1 t)
      show ?thesis
      proof (cases "byte c1 < 0x80 \<or> 0xBF < byte c1")
        case True
        with 3 Cons assms lh show ?thesis
          by (intro bad) (auto simp: DecodeRune_def Let_def split: if_splits)
      next
        case False
        with 3 Cons assms lh show ?thesis
          by (intro two[of c1 t]) (auto simp: DecodeRune_def Let_def split: if_splits)
      qed
    qed
  next
    case 4
    show ?thesis
    proof (cases "\<exists>c1 c2 t. cs = c1 # c2 # t")
      case False
      then have "length (c # cs) < 3" by (cases cs; cases "tl cs") auto
      with 4 assms show ?thesis
        by (intro bad) (auto simp: DecodeRune_def Let_def split: if_splits)
    next
      case True
      then obtain c1 c2 t where cs: "cs = c1 # c2 # t" by blast
      show ?thesis
      proof (cases "byte c1 < acceptLo ?s0 \<or> acceptHi ?s0 < byte c1
                     \<or> byte c2 < 0x80 \<or> 0xBF < byte c2")
        case True
        with 4 cs assms show ?thesis
          by (intro bad) (auto simp: DecodeRune_def Let_def split: if_splits)
      next
        case False
        with 4 cs assms show ?thesis
          by (intro three[of c1 c2 t]) (auto simp: DecodeRune_def Let_def split: if_splits)
      qed
    qed
  next
    case 5
    show ?thesis
    proof (cases "\<exists>c1 c2 c3 t. cs = c1 # c2 # c3 # t")
      case False
      then have "length (c # cs) < 4" by (cases cs; cases "tl cs"; cases "tl (tl cs)") auto
      with 5 assms show ?thesis
        by (intro bad) (auto simp: DecodeRune_def Let_def split: if_splits)
    next
      case True
      then obtain c1 c2 c3 t where cs: "cs = c1 # c2 # c3 # t" by blast
      show ?thesis
      proof (cases "byte c1 < acceptLo ?s0 \<or> acceptHi ?s0 < byte c1
                     \<or> byte c2 < 0x80 \<or> 0xBF < byte c2 \<or> byte c3 < 0x80 \<or> 0xBF < byte c3")
        case True
        with 5 cs assms show ?thesis
          by (intro bad) (auto simp: DecodeRune_def Let_def split: if_splits)
      next
        case False
        with 5 cs assms show ?thesis
          by (intro four[of c1 c2 c3 t]) (auto simp: DecodeRune_def Let_def split: if_splits)
      qed
    qed
  qed
qed

lemma DecodeRune_width:
  assumes "DecodeRune (c # cs) = (r, w)"
  shows "1 \<le> w \<and> w \<le> length (c # cs)"
  using assms by (cases rule: DecodeRune_cases) auto

lemma DecodeRune_drop_shorter:
  assumes "s \<noteq> []" and "DecodeRune s = (r, w)"
  shows "length (drop w s) < length s"
proof -
  from assms(1) obtain c cs where s: "s = c # cs" by (cases s) auto
  from DecodeRune_width[of c cs r w] assms(2) s have "1 \<le> w" by simp
  with s show ?thesis by simp
qed

text \<open>
  The runes of a string, as \<open>[]rune(s)\<close> and \<open>for _, c := range s\<close> produce them:
  every ill-formed byte yields one \<open>RuneError\<close>.
\<close>

function runes :: "string \<Rightarrow> int list" where
  "runes s = (if s = [] then [] else (case DecodeRune s of (r, w) \<Rightarrow> r # runes (drop w s)))"
  by pat_completeness auto
termination
proof (relation "measure length")
  show "wf (measure length)" by simp
next
  fix s :: string and x :: int and y :: nat
  assume "s \<noteq> []" and "(x, y) = DecodeRune s"
  then show "(drop y s, s) \<in> measure length"
    using DecodeRune_drop_shorter[of s x y] by simp
qed

declare runes.simps [simp del]


section \<open>Library functions the program calls\<close>

text \<open>
  The program classifies and maps runes with Go's Unicode tables (\<open>unicode.IsLetter\<close>,
  \<open>unicode.IsDigit\<close>, \<open>unicode.ToTitle\<close>) and \<open>strconv.AppendQuote\<close> decides
  with \<open>strconv.IsPrint\<close> which runes it writes unescaped. The tables are data of the Go
  distribution, not of this repository: they are a parameter \<open>U\<close> of the model, and
  every theorem below holds for all tables. What the library computes without a table
  (the ASCII and Latin-1 ranges) is written out.
\<close>

record unicode_tables =
  unicode_IsLetter :: "int \<Rightarrow> bool"
  unicode_IsDigit :: "int \<Rightarrow> bool"
  unicode_To_TitleCase :: "int \<Rightarrow> int"
  strconv_isPrintTable :: "int \<Rightarrow> bool"

text \<open>\<open>unicode.ToTitle\<close>: ASCII is handled without the table.\<close>

definition unicode_ToTitle :: "unicode_tables \<Rightarrow> int \<Rightarrow> int" where
  "unicode_ToTitle U r =
     (if r \<le> 0x7F then (if byte CHR ''a'' \<le> r \<and> r \<le> byte CHR ''z'' then r - 32 else r)
      else unicode_To_TitleCase U r)"

text \<open>\<open>strconv.IsPrint\<close>: Latin-1 is handled without the table.\<close>

definition strconv_IsPrint :: "unicode_tables \<Rightarrow> int \<Rightarrow> bool" where
  "strconv_IsPrint U r =
     (if r \<le> 0xFF then
        (if 0x20 \<le> r \<and> r \<le> 0x7E then True
         else if 0xA1 \<le> r \<and> r \<le> 0xFF then r \<noteq> 0xAD
         else False)
      else strconv_isPrintTable U r)"

text \<open>
  A sample table for running the model on examples: it knows the letters of Latin-1
  and their title case and nothing beyond U+00FF. The examples below use ASCII names,
  and their escaped bytes are decided by the Latin-1 test written out in
  \<open>strconv_IsPrint\<close>, so they do not depend on this choice.
\<close>

definition latin1_tables :: unicode_tables where
  "latin1_tables =
     \<lparr> unicode_IsLetter = (\<lambda>r. r = 0xAA \<or> r = 0xB5 \<or> r = 0xBA \<or> (0xC0 \<le> r \<and> r \<le> 0xD6)
                               \<or> (0xD8 \<le> r \<and> r \<le> 0xF6) \<or> (0xF8 \<le> r \<and> r \<le> 0xFF)),
       unicode_IsDigit = (\<lambda>r. False),
       unicode_To_TitleCase = (\<lambda>r. if 0xE0 \<le> r \<and> r \<le> 0xFE \<and> r \<noteq> 0xF7 then r - 32
                                    else if r = 0xFF then 0x178
                                    else if r = 0xB5 then 0x39C else r),
       strconv_isPrintTable = (\<lambda>r. False) \<rparr>"

text \<open>
  \<open>strings.Map\<close>: the mapping is applied to the runes of the string in order (an
  ill-formed byte is seen as \<open>RuneError\<close>), a negative result drops the rune, any
  other result is appended in UTF-8. The mapping of \<open>toCamelCase\<close> is a closure over
  a mutable variable, so the mapping takes the closure's state and returns the new one.
\<close>

fun mapRunes :: "('s \<Rightarrow> int \<Rightarrow> 's \<times> int) \<Rightarrow> 's \<Rightarrow> int list \<Rightarrow> string" where
  "mapRunes mapping st [] = []"
| "mapRunes mapping st (c # cs) =
     (case mapping st c of
        (st', r) \<Rightarrow> (if 0 \<le> r then EncodeRune r else []) @ mapRunes mapping st' cs)"

definition strings_Map :: "('s \<Rightarrow> int \<Rightarrow> 's \<times> int) \<Rightarrow> 's \<Rightarrow> string \<Rightarrow> string" where
  "strings_Map mapping st s = mapRunes mapping st (runes s)"

text \<open>
  \<open>filepath.Base\<close>, \<open>filepath.Ext\<close> (with \<open>/\<close> as the separator) and
  \<open>strings.TrimSuffix\<close>.
\<close>

definition filepath_Base :: "string \<Rightarrow> string" where
  "filepath_Base path =
     (if path = [] then ''.''
      else
        let p = rev (dropWhile (\<lambda>c. c = CHR ''/'') (rev path));
            e = rev (takeWhile (\<lambda>c. c \<noteq> CHR ''/'') (rev p))
        in if e = [] then ''/'' else e)"

definition filepath_Ext :: "string \<Rightarrow> string" where
  "filepath_Ext path =
     (let t = takeWhile (\<lambda>c. c \<noteq> CHR ''/'') (rev path)
      in if CHR ''.'' \<in> set t then CHR ''.'' # rev (takeWhile (\<lambda>c. c \<noteq> CHR ''.'') t) else [])"

definition strings_TrimSuffix :: "string \<Rightarrow> string \<Rightarrow> string" where
  "strings_TrimSuffix s suffix =
     (if length suffix \<le> length s \<and> drop (length s - length suffix) s = suffix
      then take (length s - length suffix) s else s)"

text \<open>
  \<open>strconv.AppendQuote\<close>: a double-quoted Go string literal for \<open>s\<close>, appended to
  \<open>dst\<close>. \<open>lowerhex\<close> is the digit string \<open>0123456789abcdef\<close>.
\<close>

definition lowerhex :: "int \<Rightarrow> char" where
  "lowerhex n = ''0123456789abcdef'' ! nat n"

definition appendEscapedRune :: "unicode_tables \<Rightarrow> int \<Rightarrow> string" where
  "appendEscapedRune U r =
     (if r = byte dquote \<or> r = byte bslash then [bslash, chr r]
      else if strconv_IsPrint U r then EncodeRune r
      else if r = 0x07 then [bslash, CHR ''a'']
      else if r = 0x08 then [bslash, CHR ''b'']
      else if r = 0x0C then [bslash, CHR ''f'']
      else if r = 0x0A then [bslash, CHR ''n'']
      else if r = 0x0D then [bslash, CHR ''r'']
      else if r = 0x09 then [bslash, CHR ''t'']
      else if r = 0x0B then [bslash, CHR ''v'']
      else if r < 0x20 \<or> r = 0x7F then
        [bslash, CHR ''x'', lowerhex (byte (chr r) div 16), lowerhex (byte (chr r) mod 16)]
      else
        let r' = (if \<not> ValidRune r then 0xFFFD else r) in
        if \<not> ValidRune r \<or> r < 0x10000 then
          [bslash, CHR ''u'', lowerhex (r' div 4096 mod 16), lowerhex (r' div 256 mod 16),
           lowerhex (r' div 16 mod 16), lowerhex (r' mod 16)]
        else
          [bslash, CHR ''U'', lowerhex (r' div 268435456 mod 16), lowerhex (r' div 16777216 mod 16),
           lowerhex (r' div 1048576 mod 16), lowerhex (r' div 65536 mod 16),
           lowerhex (r' div 4096 mod 16), lowerhex (r' div 256 mod 16),
           lowerhex (r' div 16 mod 16), lowerhex (r' mod 16)])"

text \<open>One iteration of the loop of \<open>AppendQuote\<close>: the text appended and the bytes consumed.\<close>

definition quoteStep :: "unicode_tables \<Rightarrow> string \<Rightarrow> string \<times> nat" where
  "quoteStep U s =
     (let s0 = hd s;
          (r, width) = (if RuneSelf \<le> byte s0 then DecodeRune s else (byte s0, 1))
      in if width = 1 \<and> r = RuneError then
           ([bslash, CHR ''x'', lowerhex (byte s0 div 16), lowerhex (byte s0 mod 16)], width)
         else (appendEscapedRune U r, width))"

lemma quoteStep_width:
  assumes "s \<noteq> []" and "quoteStep U s = (e, w)"
  shows "1 \<le> w \<and> w \<le> length s"
proof -
  from assms(1) obtain c cs where s: "s = c # cs" by (cases s) auto
  obtain r v where d: "DecodeRune (c # cs) = (r, v)" by (cases "DecodeRune (c # cs)")
  from DecodeRune_width[OF d] have "1 \<le> v \<and> v \<le> length (c # cs)" .
  with assms(2) s d show ?thesis
    by (auto simp: quoteStep_def Let_def split: if_splits)
qed

function quoteLoop :: "unicode_tables \<Rightarrow> string \<Rightarrow> string" where
  "quoteLoop U s =
     (if s = [] then []
      else (case quoteStep U s of (e, width) \<Rightarrow> e @ quoteLoop U (drop width s)))"
  by pat_completeness auto
termination
proof (relation "measure (\<lambda>(U, s). length s)")
  show "wf (measure (\<lambda>(U, s). length s))" by simp
next
  fix U :: unicode_tables and s :: string and e :: string and w :: nat
  assume "s \<noteq> []" and "(e, w) = quoteStep U s"
  then show "((U, drop w s), (U, s)) \<in> measure (\<lambda>(U, s). length s)"
    using quoteStep_width[of s U e w] by auto
qed

declare quoteLoop.simps [simp del]

definition strconv_AppendQuote :: "unicode_tables \<Rightarrow> string \<Rightarrow> string \<Rightarrow> string" where
  "strconv_AppendQuote U dst s = dst @ [dquote] @ quoteLoop U s @ [dquote]"

text \<open>A Go slice expression \<open>xs[lo:hi]\<close> with \<open>lo \<le> hi \<le> len(xs)\<close>.\<close>

definition slice :: "'a list \<Rightarrow> nat \<Rightarrow> nat \<Rightarrow> 'a list" where
  "slice xs lo hi = take (hi - lo) (drop lo xs)"


section \<open>The identifier sanitizer\<close>

definition keywords_list :: "string list" where
  "keywords_list =
     [''break'', ''case'', ''chan'', ''const'', ''continue'', ''default'', ''defer'', ''else'',
      ''fallthrough'', ''for'', ''func'', ''go'', ''goto'', ''if'', ''import'', ''interface'',
      ''map'', ''package'', ''range'', ''return'', ''select'', ''struct'', ''switch'', ''type'',
      ''var'']"

definition isLetter :: "int \<Rightarrow> bool" where
  "isLetter c = ((byte CHR ''a'' \<le> c \<and> c \<le> byte CHR ''z'')
                 \<or> (byte CHR ''A'' \<le> c \<and> c \<le> byte CHR ''Z'') \<or> c = byte CHR ''_'')"

definition isDigit :: "int \<Rightarrow> bool" where
  "isDigit c = (byte CHR ''0'' \<le> c \<and> c \<le> byte CHR ''9'')"

fun isReservedKeywordIn :: "string list \<Rightarrow> string \<Rightarrow> bool" where
  "isReservedKeywordIn [] kw = False"
| "isReservedKeywordIn (w # ws) kw = (if kw = w then True else isReservedKeywordIn ws kw)"

definition isReservedKeyword :: "string \<Rightarrow> bool" where
  "isReservedKeyword kw = isReservedKeywordIn keywords_list kw"

text \<open>
  \<open>filterInvalidChars\<close> walks the rune buffer with index \<open>i\<close> and write position
  \<open>l\<close>. \<open>skipRune U i c\<close> holds where the loop body reaches a \<open>continue\<close>; otherwise
  the rune is shifted down to \<open>buf[l]\<close> and \<open>l\<close> advances.
\<close>

definition skipRune :: "unicode_tables \<Rightarrow> nat \<Rightarrow> int \<Rightarrow> bool" where
  "skipRune U i c =
     (if RuneSelf \<le> c then
        (if unicode_IsLetter U c \<or> c = byte CHR ''_'' \<or> unicode_IsDigit U c
         then i = 0 \<and> unicode_IsDigit U c
         else True)
      else if isLetter c \<or> isDigit c then i = 0 \<and> isDigit c
      else True)"

definition filterStep :: "unicode_tables \<Rightarrow> nat \<Rightarrow> int list \<times> nat \<Rightarrow> int list \<times> nat" where
  "filterStep U i st =
     (case st of
        (buf, l) \<Rightarrow>
          let c = buf ! i in
          if skipRune U i c then (buf, l)
          else ((if i \<noteq> l then buf[l := c] else buf), l + 1))"

definition filterInvalidChars :: "unicode_tables \<Rightarrow> string \<Rightarrow> string" where
  "filterInvalidChars U ident =
     (let buf = runes ident
      in case fold (filterStep U) [0..<length buf] (buf, 0) of
           (buf', l) \<Rightarrow> encodeRunes (take l buf'))"

text \<open>
  \<open>toCamelCase\<close>: the closure's variable \<open>isPrevSep\<close> is the state of the mapping;
  \<open>-1\<close> tells \<open>strings.Map\<close> to drop the rune.
\<close>

definition isSeparator :: "int \<Rightarrow> bool" where
  "isSeparator r = (r = byte CHR ''_'' \<or> r = byte CHR ''-'' \<or> r = byte CHR '' ''
                    \<or> r = byte CHR '':'' \<or> r = byte CHR '','' \<or> r = byte CHR ''.'')"

definition camelMapping :: "unicode_tables \<Rightarrow> bool \<Rightarrow> int \<Rightarrow> bool \<times> int" where
  "camelMapping U isPrevSep r =
     (if isSeparator r then (True, -1)
      else if isPrevSep then (False, unicode_ToTitle U r)
      else (False, r))"

definition toCamelCase :: "unicode_tables \<Rightarrow> string \<Rightarrow> string" where
  "toCamelCase U s = strings_Map (camelMapping U) True s"

text \<open>
  Errors are values: \<open>EOF\<close> is \<open>io.EOF\<close>, \<open>ErrorString m\<close> an error made by
  \<open>errors.New(m)\<close>, \<open>SysError m\<close> an error reported by the operating system or the
  build toolchain.
\<close>

datatype error = EOF | ErrorString string | SysError string

fun Error :: "error \<Rightarrow> string" where
  "Error EOF = ''EOF''"
| "Error (ErrorString m) = m"
| "Error (SysError m) = m"

definition makeVarName :: "unicode_tables \<Rightarrow> string \<Rightarrow> string \<Rightarrow> error + string" where
  "makeVarName U name prefix =
     (let name1 = toCamelCase U name;
          name2 = filterInvalidChars U name1;
          name3 = (if prefix \<noteq> [] then prefix @ name2 else name2)
      in if isReservedKeyword name3 then Inl (ErrorString ''reserved keyword'')
         else Inr name3)"

definition stripExtension :: "string \<Rightarrow> string" where
  "stripExtension path =
     (let base = filepath_Base path in strings_TrimSuffix base (filepath_Ext base))"

definition makeVarNameFromBaseName :: "unicode_tables \<Rightarrow> string \<Rightarrow> string \<Rightarrow> error + string" where
  "makeVarNameFromBaseName U path prefix = makeVarName U (stripExtension path) prefix"

definition makeVarNameFromFileName :: "unicode_tables \<Rightarrow> string \<Rightarrow> string \<Rightarrow> error + string" where
  "makeVarNameFromFileName U path prefix = makeVarName U (filepath_Base path) prefix"

section \<open>The content escaper\<close>

text \<open>
  The world outside the program. Opening a file fails or gives a reader; a reader is the
  list of results \<open>(bytes, err)\<close> that successive calls of \<open>Read\<close> return, after which
  every further call returns \<open>(0, io.EOF)\<close>. Creating the output file may fail.
  \<open>importDir\<close> is the package name that \<open>build.Default.ImportDir(".", ...)\<close> finds,
  or its error.
\<close>

type_synonym read_result = "string \<times> error option"

record world =
  os_Open :: "string \<Rightarrow> error + read_result list"
  os_Create :: "string \<Rightarrow> error option"
  importDir :: "error + string"

definition BUFSIZE :: nat where "BUFSIZE = 4096"

text \<open>
  The read loop of \<open>quoteFile\<close>; \<open>out\<close> is what has been written so far. The closing
  quote is written after the loop is left at end of file.
\<close>

fun quoteLoopFile :: "unicode_tables \<Rightarrow> read_result list \<Rightarrow> string \<Rightarrow> string \<times> error option" where
  "quoteLoopFile U [] out = (out @ [dquote], None)"
| "quoteLoopFile U ((chunk, errEOF) # rest) out =
     (if errEOF \<noteq> None \<and> errEOF \<noteq> Some EOF then (out, errEOF)
      else if errEOF = Some EOF \<and> length chunk = 0 then (out @ [dquote], None)
      else
        let quoted = strconv_AppendQuote U [] chunk;
            out' = (if 0 < length quoted then out @ slice quoted 1 (length quoted - 1) else out)
        in quoteLoopFile U rest out')"

definition quoteFile :: "unicode_tables \<Rightarrow> world \<Rightarrow> string \<Rightarrow> string \<Rightarrow> string \<times> error option" where
  "quoteFile U W out fn =
     (case os_Open W fn of
        Inl err \<Rightarrow> (out, Some err)
      | Inr reads \<Rightarrow> quoteLoopFile U reads (out @ [dquote]))"

text \<open>
  A regular file with contents \<open>bs\<close>: every \<open>Read\<close> fills the buffer of \<open>BUFSIZE\<close>
  bytes until the contents are used up.
\<close>

function chunks :: "nat \<Rightarrow> 'a list \<Rightarrow> 'a list list" where
  "chunks n xs = (if n = 0 \<or> xs = [] then [] else take n xs # chunks n (drop n xs))"
  by pat_completeness auto
termination
  by (relation "measure (\<lambda>(n, xs). length xs)") auto

declare chunks.simps [simp del]

definition regular_file :: "string \<Rightarrow> read_result list" where
  "regular_file bs = map (\<lambda>c. (c, None)) (chunks BUFSIZE bs)"

section \<open>The emitter and the bundler\<close>

definition writeHeaderWithPackage :: "string \<Rightarrow> string \<Rightarrow> string" where
  "writeHeaderWithPackage w name =
     w @ ''// Code generated automatically; DO NOT EDIT.'' @ [newline]
       @ [newline]
       @ ''package'' @ '' '' @ name @ [newline]
       @ [newline]"

definition getPkgName :: "world \<Rightarrow> string \<Rightarrow> error + string" where
  "getPkgName W dir = importDir W"

definition writeHeader :: "world \<Rightarrow> string \<Rightarrow> error + string" where
  "writeHeader W w =
     (case getPkgName W ''.'' of
        Inl err \<Rightarrow> Inl err
      | Inr pkgName \<Rightarrow> Inr (writeHeaderWithPackage w pkgName))"

record bundler =
  outFile :: string
  pkgName :: string
  prefix :: string
  decl :: string
  varNameFunc :: "string \<Rightarrow> string \<Rightarrow> error + string"

definition NewBundler ::
  "unicode_tables \<Rightarrow> string \<Rightarrow> string \<Rightarrow> string \<Rightarrow> bool
     \<Rightarrow> (string \<Rightarrow> string \<Rightarrow> error + string) option \<Rightarrow> bundler" where
  "NewBundler U outFile' pkgName' prefix' useConst varNameFunc' =
     \<lparr> outFile = outFile',
       pkgName = pkgName',
       prefix = prefix',
       decl = (if useConst then ''const'' else ''var''),
       varNameFunc = (case varNameFunc' of None \<Rightarrow> makeVarNameFromBaseName U | Some f \<Rightarrow> f) \<rparr>"

text \<open>
  The two streams of a run: \<open>outStream\<close> is what reaches the output destination (the
  buffered writer is flushed on every return after it is made), \<open>errStream\<close> the error
  stream.
\<close>

record streams =
  outStream :: string
  errStream :: string

text \<open>The loop of \<open>ProcessFiles\<close> over the input files.\<close>

fun processLoop ::
  "bool \<Rightarrow> unicode_tables \<Rightarrow> world \<Rightarrow> bundler \<Rightarrow> string list \<Rightarrow> streams \<Rightarrow> streams \<times> error option"
  where
  "processLoop Verbose U W b [] st = (st, None)"
| "processLoop Verbose U W b (fn # fns) st =
     (let st1 = (if Verbose
                 then st\<lparr>errStream := errStream st @ ''processing file:'' @ '' '' @ fn @ [newline]\<rparr>
                 else st)
      in case varNameFunc b fn (prefix b) of
           Inl err \<Rightarrow> (st1, Some err)
         | Inr varName \<Rightarrow>
             let bw1 = outStream st1 @ [newline, tab] @ ''// file: '' @ fn @ [newline];
                 bw2 = bw1 @ [tab] @ varName @ '' = ''
             in case quoteFile U W bw2 fn of
                  (bw3, Some err) \<Rightarrow> (st1\<lparr>outStream := bw3\<rparr>, Some err)
                | (bw3, None) \<Rightarrow>
                    processLoop Verbose U W b fns (st1\<lparr>outStream := bw3 @ [newline]\<rparr>))"

definition ProcessFiles ::
  "bool \<Rightarrow> unicode_tables \<Rightarrow> world \<Rightarrow> bundler \<Rightarrow> string list \<Rightarrow> streams \<times> error option" where
  "ProcessFiles Verbose U W b files =
     (case (if outFile b \<noteq> [] then os_Create W (outFile b) else None) of
        Some err \<Rightarrow>
          (\<lparr>outStream = [], errStream = ''error:'' @ '' '' @ Error err @ [newline]\<rparr>, Some err)
      | None \<Rightarrow>
          (case (if pkgName b \<noteq> [] then Inr (writeHeaderWithPackage [] (pkgName b))
                 else writeHeader W []) of
             Inl err \<Rightarrow> (\<lparr>outStream = [], errStream = []\<rparr>, Some err)
           | Inr bw0 \<Rightarrow>
               let bw1 = bw0 @ ''// These '' @ decl b @ ''s are included from files by go generate.''
                           @ [newline];
                   bw2 = bw1 @ decl b @ '' (''
               in case processLoop Verbose U W b files \<lparr>outStream = bw2, errStream = []\<rparr> of
                    (st, Some err) \<Rightarrow> (st, Some err)
                  | (st, None) \<Rightarrow> (st\<lparr>outStream := outStream st @ '')'' @ [newline]\<rparr>, None)))"


section \<open>Reading a Go string literal back\<close>

text \<open>
  The interpreted string literals of the Go language specification, as the reader of
  the generated file un-escapes them: between the double quotes any character except
  newline and unescaped double quote, and after a backslash one of the letters
  \<open>a b f n r t v\<close>, a backslash or a double quote, three octal digits (a value of at
  most 255), \<open>x\<close> and two hexadecimal digits (a byte), or \<open>u\<close> and four or
  \<open>U\<close> and eight hexadecimal digits (a valid code point, which stands for its UTF-8
  encoding). The source text must be well-formed UTF-8 and must not hold a NUL
  character. \<open>None\<close> means that the text is rejected.
\<close>

definition hexval :: "char \<Rightarrow> int option" where
  "hexval c =
     (if byte CHR ''0'' \<le> byte c \<and> byte c \<le> byte CHR ''9'' then Some (byte c - byte CHR ''0'')
      else if byte CHR ''a'' \<le> byte c \<and> byte c \<le> byte CHR ''f'' then Some (byte c - byte CHR ''a'' + 10)
      else if byte CHR ''A'' \<le> byte c \<and> byte c \<le> byte CHR ''F'' then Some (byte c - byte CHR ''A'' + 10)
      else None)"

definition octval :: "char \<Rightarrow> int option" where
  "octval c =
     (if byte CHR ''0'' \<le> byte c \<and> byte c \<le> byte CHR ''7'' then Some (byte c - byte CHR ''0'')
      else None)"

fun digitsValue :: "(char \<Rightarrow> int option) \<Rightarrow> int \<Rightarrow> int \<Rightarrow> string \<Rightarrow> int option" where
  "digitsValue dv base acc [] = Some acc"
| "digitsValue dv base acc (c # cs) =
     (case dv c of None \<Rightarrow> None | Some d \<Rightarrow> digitsValue dv base (base * acc + d) cs)"

text \<open>The text after a backslash: the bytes the escape stands for, and the rest.\<close>

definition unquoteEscape :: "string \<Rightarrow> (string \<times> string) option" where
  "unquoteEscape s =
     (case s of
        [] \<Rightarrow> None
      | e # rest \<Rightarrow>
          if e = CHR ''a'' then Some ([chr 0x07], rest)
          else if e = CHR ''b'' then Some ([chr 0x08], rest)
          else if e = CHR ''f'' then Some ([chr 0x0C], rest)
          else if e = CHR ''n'' then Some ([chr 0x0A], rest)
          else if e = CHR ''r'' then Some ([chr 0x0D], rest)
          else if e = CHR ''t'' then Some ([chr 0x09], rest)
          else if e = CHR ''v'' then Some ([chr 0x0B], rest)
          else if e = bslash then Some ([bslash], rest)
          else if e = dquote then Some ([dquote], rest)
          else if e = CHR ''x'' then
            (if length rest < 2 then None
             else case digitsValue hexval 16 0 (take 2 rest) of
                    None \<Rightarrow> None
                  | Some v \<Rightarrow> Some ([chr v], drop 2 rest))
          else if e = CHR ''u'' then
            (if length rest < 4 then None
             else case digitsValue hexval 16 0 (take 4 rest) of
                    None \<Rightarrow> None
                  | Some v \<Rightarrow> if ValidRune v then Some (EncodeRune v, drop 4 rest) else None)
          else if e = CHR ''U'' then
            (if length rest < 8 then None
             else case digitsValue hexval 16 0 (take 8 rest) of
                    None \<Rightarrow> None
                  | Some v \<Rightarrow> if ValidRune v then Some (EncodeRune v, drop 8 rest) else None)
          else if octval e \<noteq> None then
            (if length rest < 2 then None
             else case digitsValue octval 8 0 (e # take 2 rest) of
                    None \<Rightarrow> None
                  | Some v \<Rightarrow> if v \<le> 255 then Some ([chr v], drop 2 rest) else None)
          else None)"

text \<open>One element of the literal's body: the bytes it stands for, and the rest.\<close>

definition unquoteUnit :: "string \<Rightarrow> (string \<times> string) option" where
  "unquoteUnit s =
     (case s of
        [] \<Rightarrow> None
      | c # rest \<Rightarrow>
          if c = bslash then unquoteEscape rest
          else if c = dquote \<or> c = newline then None
          else
            (case DecodeRune s of
               (r, w) \<Rightarrow>
                 if r = RuneError \<and> w = 1 then None
                 else if r = 0 then None
                 else Some (take w s, drop w s)))"

lemma unquoteEscape_shorter:
  assumes "unquoteEscape s = Some (bs, rest)"
  shows "length rest < length s"
  using assms
  by (cases s) (auto simp: unquoteEscape_def split: if_splits option.splits)

lemma unquoteUnit_shorter:
  assumes "unquoteUnit s = Some (bs, rest)"
  shows "length rest < length s"
proof (cases s)
  case Nil
  with assms show ?thesis by (simp add: unquoteUnit_def)
next
  case (Cons c cs)
  show ?thesis
  proof (cases "c = bslash")
    case True
    with assms Cons have "unquoteEscape cs = Some (bs, rest)" by (simp add: unquoteUnit_def)
    from unquoteEscape_shorter[OF this] Cons show ?thesis by simp
  next
    case False
    obtain r w where d: "DecodeRune (c # cs) = (r, w)" by (cases "DecodeRune (c # cs)")
    from DecodeRune_width[OF d] have "1 \<le> w" by simp
    with assms Cons False d show ?thesis
      by (auto simp: unquoteUnit_def split: if_splits)
  qed
qed

function unquoteBody :: "string \<Rightarrow> string option" where
  "unquoteBody s =
     (if s = [] then Some []
      else (case unquoteUnit s of
              None \<Rightarrow> None
            | Some (bs, rest) \<Rightarrow>
                (case unquoteBody rest of None \<Rightarrow> None | Some t \<Rightarrow> Some (bs @ t))))"
  by pat_completeness auto
termination
proof (relation "measure length")
  show "wf (measure length)" by simp
next
  fix s :: string and x2 :: "string \<times> string" and bs rest :: string
  assume "s \<noteq> []" and "unquoteUnit s = Some x2" and "(bs, rest) = x2"
  then show "(rest, s) \<in> measure length"
    using unquoteUnit_shorter[of s bs rest] by simp
qed

declare unquoteBody.simps [simp del]

definition unquote :: "string \<Rightarrow> string option" where
  "unquote lit =
     (case lit of
        [] \<Rightarrow> None
      | q # rest \<Rightarrow>
          if q \<noteq> dquote \<or> rest = [] \<or> last rest \<noteq> dquote then None
          else unquoteBody (butlast rest))"


section \<open>Facts about UTF-8\<close>

text \<open>
  Decoding yields Unicode scalar values only, encoding a decoded rune gives back the
  bytes it was decoded from, a decoded rune does not depend on the bytes after it, and
  decoding an encoded scalar value gives the value back.
\<close>

lemma divmod64:
  fixes x y :: int
  assumes "0 \<le> y" "y < 64"
  shows "(x * 64 + y) div 64 = x" "(x * 64 + y) mod 64 = y"
  using assms by simp_all

lemma two_arith:
  fixes a b r :: int
  assumes "0xC2 \<le> a" "a \<le> 0xDF" "0x80 \<le> b" "b \<le> 0xBF" "r = (a mod 32) * 64 + b mod 64"
  shows "0x80 \<le> r" "r \<le> 0x7FF" "0xC0 + r div 64 = a" "0x80 + r mod 64 = b"
proof -
  define x y where "x = a - 192" and "y = b - 128"
  have a: "a mod 32 = x" using assms(1,2) unfolding x_def by presburger
  have b: "b mod 64 = y" using assms(3,4) unfolding y_def by presburger
  have xy: "2 \<le> x" "x \<le> 31" "0 \<le> y" "y < 64" using assms(1-4) by (auto simp: x_def y_def)
  have r: "r = x * 64 + y" using assms(5) a b by simp
  have rf: "r = 64 * x + y" unfolding r by simp
  have d1: "r div 64 = x" and m1: "r mod 64 = y"
    unfolding r by (rule divmod64[OF xy(3,4)])+
  show "0xC0 + r div 64 = a" unfolding d1 x_def by simp
  show "0x80 + r mod 64 = b" unfolding m1 y_def by simp
  show "0x80 \<le> r" "r \<le> 0x7FF" unfolding rf using xy by linarith+
qed

lemma three_arith:
  fixes a b c r :: int
  assumes "0xE0 \<le> a" "a \<le> 0xEF" "acceptLo a \<le> b" "b \<le> acceptHi a" "0x80 \<le> c" "c \<le> 0xBF"
    "r = (a mod 16) * 4096 + (b mod 64) * 64 + c mod 64"
  shows "0x800 \<le> r" "r \<le> 0xFFFF" "r < 0xD800 \<or> 0xDFFF < r"
    "0xE0 + r div 4096 = a" "0x80 + (r div 64) mod 64 = b" "0x80 + r mod 64 = c"
proof -
  define x y z where "x = a - 224" and "y = b - 128" and "z = c - 128"
  have bb: "0x80 \<le> b" "b \<le> 0xBF"
    using assms(1-4) by (auto simp: acceptLo_def acceptHi_def split: if_splits)
  have a: "a mod 16 = x" using assms(1,2) unfolding x_def by presburger
  have b: "b mod 64 = y" using bb unfolding y_def by presburger
  have c: "c mod 64 = z" using assms(5,6) unfolding z_def by presburger
  have xyz: "0 \<le> x" "x \<le> 15" "0 \<le> y" "y < 64" "0 \<le> z" "z < 64"
    using assms(1,2,5,6) bb by (auto simp: x_def y_def z_def)
  have lo: "x = 0 \<Longrightarrow> 32 \<le> y" using assms(3) by (simp add: acceptLo_def x_def y_def)
  have hi: "x = 13 \<Longrightarrow> y \<le> 31" using assms(4) by (simp add: acceptHi_def x_def y_def)
  have r: "r = (x * 64 + y) * 64 + z" using assms(7) a b c by simp
  have rf: "r = 4096 * x + 64 * y + z" unfolding r by simp
  have d1: "r div 64 = x * 64 + y" and m1: "r mod 64 = z"
    unfolding r by (rule divmod64[OF xyz(5,6)])+
  have d2: "r div 4096 = x"
  proof -
    have "r div 4096 = (r div 64) div 64" by (simp add: div_mult2_eq)
    then show ?thesis by (simp only: d1 divmod64[OF xyz(3,4)])
  qed
  have m2: "(r div 64) mod 64 = y" by (simp only: d1 divmod64[OF xyz(3,4)])
  have lo_r: "0x800 \<le> r"
  proof (cases "x = 0")
    case True
    with lo[OF True] xyz show ?thesis unfolding rf by linarith
  next
    case False
    then have "1 \<le> x" using xyz by auto
    then show ?thesis unfolding rf using xyz by linarith
  qed
  have hi_r: "r \<le> 0xFFFF" unfolding rf using xyz by linarith
  have sur: "r < 0xD800 \<or> 0xDFFF < r"
  proof (cases "x = 13")
    case True
    with hi[OF True] xyz have "r < 0xD800" unfolding rf by linarith
    then show ?thesis by simp
  next
    case False
    then have "x \<le> 12 \<or> 14 \<le> x" by linarith
    then show ?thesis
    proof
      assume "x \<le> 12"
      then have "r < 0xD800" unfolding rf using xyz by linarith
      then show ?thesis by simp
    next
      assume "14 \<le> x"
      then have "0xDFFF < r" unfolding rf using xyz by linarith
      then show ?thesis by simp
    qed
  qed
  show "0xE0 + r div 4096 = a" unfolding d2 x_def by simp
  show "0x80 + (r div 64) mod 64 = b" unfolding m2 y_def by simp
  show "0x80 + r mod 64 = c" unfolding m1 z_def by simp
  show "0x800 \<le> r" "r \<le> 0xFFFF" "r < 0xD800 \<or> 0xDFFF < r" by (rule lo_r hi_r sur)+
qed

lemma four_arith:
  fixes a b c d r :: int
  assumes "0xF0 \<le> a" "a \<le> 0xF4" "acceptLo a \<le> b" "b \<le> acceptHi a" "0x80 \<le> c" "c \<le> 0xBF"
    "0x80 \<le> d" "d \<le> 0xBF"
    "r = (a mod 8) * 262144 + (b mod 64) * 4096 + (c mod 64) * 64 + d mod 64"
  shows "0x10000 \<le> r" "r \<le> 0x10FFFF"
    "0xF0 + r div 262144 = a" "0x80 + (r div 4096) mod 64 = b"
    "0x80 + (r div 64) mod 64 = c" "0x80 + r mod 64 = d"
proof -
  define x y z u where "x = a - 240" and "y = b - 128" and "z = c - 128" and "u = d - 128"
  have bb: "0x80 \<le> b" "b \<le> 0xBF"
    using assms(1-4) by (auto simp: acceptLo_def acceptHi_def split: if_splits)
  have a: "a mod 8 = x" using assms(1,2) unfolding x_def by presburger
  have b: "b mod 64 = y" using bb unfolding y_def by presburger
  have c: "c mod 64 = z" using assms(5,6) unfolding z_def by presburger
  have d: "d mod 64 = u" using assms(7,8) unfolding u_def by presburger
  have xyz: "0 \<le> x" "x \<le> 4" "0 \<le> y" "y < 64" "0 \<le> z" "z < 64" "0 \<le> u" "u < 64"
    using assms(1,2,5-8) bb by (auto simp: x_def y_def z_def u_def)
  have lo: "x = 0 \<Longrightarrow> 16 \<le> y" using assms(3) by (simp add: acceptLo_def x_def y_def)
  have hi: "x = 4 \<Longrightarrow> y \<le> 15" using assms(4) by (simp add: acceptHi_def x_def y_def)
  have r: "r = ((x * 64 + y) * 64 + z) * 64 + u" using assms(9) a b c d by simp
  have rf: "r = 262144 * x + 4096 * y + 64 * z + u" unfolding r by simp
  have d1: "r div 64 = (x * 64 + y) * 64 + z" and m1: "r mod 64 = u"
    unfolding r by (rule divmod64[OF xyz(7,8)])+
  have d2: "r div 4096 = x * 64 + y"
  proof -
    have "r div 4096 = (r div 64) div 64" by (simp add: div_mult2_eq)
    then show ?thesis by (simp only: d1 divmod64[OF xyz(5,6)])
  qed
  have m2: "(r div 64) mod 64 = z" by (simp only: d1 divmod64[OF xyz(5,6)])
  have d3: "r div 262144 = x"
  proof -
    have "r div 262144 = (r div 4096) div 64" by (simp add: div_mult2_eq)
    then show ?thesis by (simp only: d2 divmod64[OF xyz(3,4)])
  qed
  have m3: "(r div 4096) mod 64 = y" by (simp only: d2 divmod64[OF xyz(3,4)])
  have lo_r: "0x10000 \<le> r"
  proof (cases "x = 0")
    case True
    with lo[OF True] xyz show ?thesis unfolding rf by linarith
  next
    case False
    then have "1 \<le> x" using xyz by auto
    then show ?thesis unfolding rf using xyz by linarith
  qed
  have hi_r: "r \<le> 0x10FFFF"
  proof (cases "x = 4")
    case True
    with hi[OF True] xyz show ?thesis unfolding rf by linarith
  next
    case False
    then have "x \<le> 3" using xyz by auto
    then show ?thesis unfolding rf using xyz by linarith
  qed
  show "0xF0 + r div 262144 = a" unfolding d3 x_def by simp
  show "0x80 + (r div 4096) mod 64 = b" unfolding m3 y_def by simp
  show "0x80 + (r div 64) mod 64 = c" unfolding m2 z_def by simp
  show "0x80 + r mod 64 = d" unfolding m1 u_def by simp
  show "0x10000 \<le> r" "r \<le> 0x10FFFF" by (rule lo_r hi_r)+
qed

lemma DecodeRune_ValidRune:
  assumes "DecodeRune s = (r, w)"
  shows "ValidRune r"
proof (cases s)
  case Nil
  with assms show ?thesis by (simp add: ValidRune_def RuneError_def)
next
  case (Cons c cs)
  from assms[unfolded Cons] show ?thesis
  proof (cases rule: DecodeRune_cases)
    case ascii
    then show ?thesis by (simp add: ValidRune_def)
  next
    case bad
    then show ?thesis by (simp add: ValidRune_def RuneError_def)
  next
    case (two c1 t)
    from two_arith(1,2)[OF two(2-6)] show ?thesis unfolding ValidRune_def by linarith
  next
    case (three c1 c2 t)
    from three_arith(1-3)[OF three(2-8)] show ?thesis unfolding ValidRune_def by linarith
  next
    case (four c1 c2 c3 t)
    from four_arith(1,2)[OF four(2-10)] show ?thesis unfolding ValidRune_def by linarith
  qed
qed

lemma EncodeRune_DecodeRune:
  assumes "DecodeRune (c # cs) = (r, w)" and "\<not> (r = RuneError \<and> w = 1)"
  shows "EncodeRune r = take w (c # cs)"
  using assms(1)
proof (cases rule: DecodeRune_cases)
  case ascii
  then show ?thesis by (simp add: EncodeRune_def)
next
  case bad
  with assms(2) show ?thesis by simp
next
  case (two c1 t)
  note B = two_arith(1,2)[OF two(2-6)] and E = two_arith(3,4)[OF two(2-6)]
  have "EncodeRune r = enc2 r"
    using B unfolding EncodeRune_def by simp
  also have "\<dots> = [c, c1]" unfolding enc2_def by (simp only: E chr_byte)
  finally show ?thesis using two(1,7) by simp
next
  case (three c1 c2 t)
  note B = three_arith(1-3)[OF three(2-8)] and E = three_arith(4-6)[OF three(2-8)]
  have "EncodeRune r = enc3 r"
    using B unfolding EncodeRune_def by auto
  also have "\<dots> = [c, c1, c2]" unfolding enc3_def by (simp only: E chr_byte)
  finally show ?thesis using three(1,9) by simp
next
  case (four c1 c2 c3 t)
  note B = four_arith(1,2)[OF four(2-10)] and E = four_arith(3-6)[OF four(2-10)]
  have "EncodeRune r = enc4 r"
    using B unfolding EncodeRune_def by simp
  also have "\<dots> = [c, c1, c2, c3]" unfolding enc4_def by (simp only: E chr_byte)
  finally show ?thesis using four(1,11) by simp
qed


lemma DecodeRune_two:
  assumes "0xC2 \<le> byte c" "byte c \<le> 0xDF" "0x80 \<le> byte c1" "byte c1 \<le> 0xBF"
  shows "DecodeRune (c # c1 # t) = ((byte c mod 32) * 64 + byte c1 mod 64, 2)"
proof -
  have "acceptLo (byte c) = 0x80" "acceptHi (byte c) = 0xBF"
    using assms(1,2) by (auto simp: acceptLo_def acceptHi_def)
  then show ?thesis using assms by (simp add: DecodeRune_def Let_def)
qed

lemma DecodeRune_three:
  assumes "0xE0 \<le> byte c" "byte c \<le> 0xEF" "acceptLo (byte c) \<le> byte c1"
    "byte c1 \<le> acceptHi (byte c)" "0x80 \<le> byte c2" "byte c2 \<le> 0xBF"
  shows "DecodeRune (c # c1 # c2 # t)
           = ((byte c mod 16) * 4096 + (byte c1 mod 64) * 64 + byte c2 mod 64, 3)"
  using assms by (simp add: DecodeRune_def Let_def)

lemma DecodeRune_four:
  assumes "0xF0 \<le> byte c" "byte c \<le> 0xF4" "acceptLo (byte c) \<le> byte c1"
    "byte c1 \<le> acceptHi (byte c)" "0x80 \<le> byte c2" "byte c2 \<le> 0xBF"
    "0x80 \<le> byte c3" "byte c3 \<le> 0xBF"
  shows "DecodeRune (c # c1 # c2 # c3 # t)
           = ((byte c mod 8) * 262144 + (byte c1 mod 64) * 4096
                + (byte c2 mod 64) * 64 + byte c3 mod 64, 4)"
  using assms by (simp add: DecodeRune_def Let_def)

lemma DecodeRune_prefix:
  assumes "DecodeRune (c # cs) = (r, w)" and "\<not> (r = RuneError \<and> w = 1)"
  shows "DecodeRune (take w (c # cs) @ t) = (r, w)"
  using assms(1)
proof (cases rule: DecodeRune_cases)
  case ascii
  then show ?thesis by (simp add: DecodeRune_ascii)
next
  case bad
  with assms(2) show ?thesis by simp
next
  case (two c1 u)
  then show ?thesis using DecodeRune_two[OF two(2-5)] by simp
next
  case (three c1 c2 u)
  then show ?thesis using DecodeRune_three[OF three(2-7)] by simp
next
  case (four c1 c2 c3 u)
  then show ?thesis using DecodeRune_four[OF four(2-9)] by simp
qed

lemma split64:
  fixes r :: int
  obtains x y where "r = 64 * x + y" "0 \<le> y" "y < 64" "r div 64 = x" "r mod 64 = y"
proof -
  have "r = 64 * (r div 64) + r mod 64" by simp
  moreover have "0 \<le> r mod 64" "r mod 64 < 64" by simp_all
  ultimately show thesis using that by blast
qed

lemma mod_shift:
  fixes x :: int
  assumes "0 \<le> x" "x < m"
  shows "(m * k + x) mod m = x"
  using assms by simp

lemma enc_dec_two:
  assumes two: "0x80 \<le> r" "r \<le> 0x7FF"
  shows "DecodeRune (EncodeRune r @ t) = (r, length (EncodeRune r))"
proof -
  obtain x y where xy: "r = 64 * x + y" "0 \<le> y" "y < 64" "r div 64 = x" "r mod 64 = y"
    by (rule split64)
  have xb: "2 \<le> x" "x \<le> 31" using two xy(1-3) by linarith+
  have "EncodeRune r = enc2 r" using two by (simp add: EncodeRune_def)
  then have e: "EncodeRune r = [chr (0xC0 + x), chr (0x80 + y)]"
    by (simp only: enc2_def xy(4,5))
  have b0: "byte (chr (0xC0 + x)) = 0xC0 + x" using xb by (intro byte_chr_small) linarith+
  have b1: "byte (chr (0x80 + y)) = 0x80 + y" using xy(2,3) by (intro byte_chr_small) linarith+
  have m0: "(0xC0 + x) mod 32 = x" using mod_shift[of x 32 6] xb by simp
  have m1: "(0x80 + y) mod 64 = y" using mod_shift[of y 64 2] xy(2,3) by simp
  have "DecodeRune (chr (0xC0 + x) # chr (0x80 + y) # t)
          = ((byte (chr (0xC0 + x)) mod 32) * 64 + byte (chr (0x80 + y)) mod 64, 2)"
  proof (rule DecodeRune_two)
    show "0xC2 \<le> byte (chr (0xC0 + x))" unfolding b0 using xb by linarith
    show "byte (chr (0xC0 + x)) \<le> 0xDF" unfolding b0 using xb by linarith
    show "0x80 \<le> byte (chr (0x80 + y))" unfolding b1 using xy(2) by linarith
    show "byte (chr (0x80 + y)) \<le> 0xBF" unfolding b1 using xy(3) by linarith
  qed
  also have "\<dots> = (r, 2)" unfolding b0 b1 m0 m1 xy(1) by simp
  finally show ?thesis unfolding e by simp
qed


lemma enc_dec_three:
  assumes three: "0x800 \<le> r" "r \<le> 0xFFFF" "r < 0xD800 \<or> 0xDFFF < r"
  shows "DecodeRune (EncodeRune r @ t) = (r, length (EncodeRune r))"
proof -
  obtain p z where pz: "r = 64 * p + z" "0 \<le> z" "z < 64" "r div 64 = p" "r mod 64 = z"
    by (rule split64)
  obtain x y where xy: "p = 64 * x + y" "0 \<le> y" "y < 64" "p div 64 = x" "p mod 64 = y"
    by (rule split64)
  have rf: "r = 4096 * x + 64 * y + z" using pz(1) xy(1) by simp
  have xb: "0 \<le> x" "x \<le> 15" using three(1,2) rf xy(2,3) pz(2,3) by linarith+
  have lo: "x = 0 \<Longrightarrow> 32 \<le> y" using three(1) rf pz(2,3) by linarith
  have hi: "x = 13 \<Longrightarrow> y \<le> 31" using three(3) rf pz(2,3) xy(2,3) by linarith
  have "r div 4096 = (r div 64) div 64" by (simp add: div_mult2_eq)
  then have d0: "r div 4096 = x" by (simp only: pz(4) xy(4))
  have d1: "(r div 64) mod 64 = y" by (simp only: pz(4) xy(5))
  have "EncodeRune r = enc3 r" using three by (auto simp: EncodeRune_def)
  then have e: "EncodeRune r = [chr (0xE0 + x), chr (0x80 + y), chr (0x80 + z)]"
    by (simp only: enc3_def d0 d1 pz(5))
  have b0: "byte (chr (0xE0 + x)) = 0xE0 + x" using xb by (intro byte_chr_small) linarith+
  have b1: "byte (chr (0x80 + y)) = 0x80 + y" using xy(2,3) by (intro byte_chr_small) linarith+
  have b2: "byte (chr (0x80 + z)) = 0x80 + z" using pz(2,3) by (intro byte_chr_small) linarith+
  have m0: "(0xE0 + x) mod 16 = x" using mod_shift[of x 16 14] xb by simp
  have m1: "(0x80 + y) mod 64 = y" using mod_shift[of y 64 2] xy(2,3) by simp
  have m2: "(0x80 + z) mod 64 = z" using mod_shift[of z 64 2] pz(2,3) by simp
  have al: "acceptLo (0xE0 + x) \<le> 0x80 + y" using lo xy(2) xb by (auto simp: acceptLo_def)
  have ah: "0x80 + y \<le> acceptHi (0xE0 + x)" using hi xy(3) xb by (auto simp: acceptHi_def)
  have "DecodeRune (chr (0xE0 + x) # chr (0x80 + y) # chr (0x80 + z) # t)
          = ((byte (chr (0xE0 + x)) mod 16) * 4096 + (byte (chr (0x80 + y)) mod 64) * 64
               + byte (chr (0x80 + z)) mod 64, 3)"
  proof (rule DecodeRune_three)
    show "0xE0 \<le> byte (chr (0xE0 + x))" unfolding b0 using xb by linarith
    show "byte (chr (0xE0 + x)) \<le> 0xEF" unfolding b0 using xb by linarith
    show "acceptLo (byte (chr (0xE0 + x))) \<le> byte (chr (0x80 + y))" unfolding b0 b1 by (rule al)
    show "byte (chr (0x80 + y)) \<le> acceptHi (byte (chr (0xE0 + x)))" unfolding b0 b1 by (rule ah)
    show "0x80 \<le> byte (chr (0x80 + z))" unfolding b2 using pz(2) by linarith
    show "byte (chr (0x80 + z)) \<le> 0xBF" unfolding b2 using pz(3) by linarith
  qed
  also have "\<dots> = (r, 3)" unfolding b0 b1 b2 m0 m1 m2 rf by simp
  finally show ?thesis unfolding e by simp
qed

lemma enc_dec_four:
  assumes four: "0x10000 \<le> r" "r \<le> 0x10FFFF"
  shows "DecodeRune (EncodeRune r @ t) = (r, length (EncodeRune r))"
proof -
  obtain p u where pu: "r = 64 * p + u" "0 \<le> u" "u < 64" "r div 64 = p" "r mod 64 = u"
    by (rule split64)
  obtain q z where qz: "p = 64 * q + z" "0 \<le> z" "z < 64" "p div 64 = q" "p mod 64 = z"
    by (rule split64)
  obtain x y where xy: "q = 64 * x + y" "0 \<le> y" "y < 64" "q div 64 = x" "q mod 64 = y"
    by (rule split64)
  have rf: "r = 262144 * x + 4096 * y + 64 * z + u" using pu(1) qz(1) xy(1) by simp
  have xb: "0 \<le> x" "x \<le> 4" using four rf xy(2,3) qz(2,3) pu(2,3) by linarith+
  have lo: "x = 0 \<Longrightarrow> 16 \<le> y" using four(1) rf qz(2,3) pu(2,3) by linarith
  have hi: "x = 4 \<Longrightarrow> y \<le> 15" using four(2) rf qz(2,3) pu(2,3) xy(2,3) by linarith
  have "r div 4096 = (r div 64) div 64" by (simp add: div_mult2_eq)
  then have dq: "r div 4096 = q" by (simp only: pu(4) qz(4))
  have "r div 262144 = (r div 4096) div 64" by (simp add: div_mult2_eq)
  then have d0: "r div 262144 = x" by (simp only: dq xy(4))
  have d1: "(r div 4096) mod 64 = y" by (simp only: dq xy(5))
  have d2: "(r div 64) mod 64 = z" by (simp only: pu(4) qz(5))
  have "EncodeRune r = enc4 r" using four by (auto simp: EncodeRune_def)
  then have e: "EncodeRune r = [chr (0xF0 + x), chr (0x80 + y), chr (0x80 + z), chr (0x80 + u)]"
    by (simp only: enc4_def d0 d1 d2 pu(5))
  have b0: "byte (chr (0xF0 + x)) = 0xF0 + x" using xb by (intro byte_chr_small) linarith+
  have b1: "byte (chr (0x80 + y)) = 0x80 + y" using xy(2,3) by (intro byte_chr_small) linarith+
  have b2: "byte (chr (0x80 + z)) = 0x80 + z" using qz(2,3) by (intro byte_chr_small) linarith+
  have b3: "byte (chr (0x80 + u)) = 0x80 + u" using pu(2,3) by (intro byte_chr_small) linarith+
  have m0: "(0xF0 + x) mod 8 = x" using mod_shift[of x 8 30] xb by simp
  have m1: "(0x80 + y) mod 64 = y" using mod_shift[of y 64 2] xy(2,3) by simp
  have m2: "(0x80 + z) mod 64 = z" using mod_shift[of z 64 2] qz(2,3) by simp
  have m3: "(0x80 + u) mod 64 = u" using mod_shift[of u 64 2] pu(2,3) by simp
  have al: "acceptLo (0xF0 + x) \<le> 0x80 + y" using lo xy(2) xb by (auto simp: acceptLo_def)
  have ah: "0x80 + y \<le> acceptHi (0xF0 + x)" using hi xy(3) xb by (auto simp: acceptHi_def)
  have "DecodeRune (chr (0xF0 + x) # chr (0x80 + y) # chr (0x80 + z) # chr (0x80 + u) # t)
          = ((byte (chr (0xF0 + x)) mod 8) * 262144 + (byte (chr (0x80 + y)) mod 64) * 4096
               + (byte (chr (0x80 + z)) mod 64) * 64 + byte (chr (0x80 + u)) mod 64, 4)"
  proof (rule DecodeRune_four)
    show "0xF0 \<le> byte (chr (0xF0 + x))" unfolding b0 using xb by linarith
    show "byte (chr (0xF0 + x)) \<le> 0xF4" unfolding b0 using xb by linarith
    show "acceptLo (byte (chr (0xF0 + x))) \<le> byte (chr (0x80 + y))" unfolding b0 b1 by (rule al)
    show "byte (chr (0x80 + y)) \<le> acceptHi (byte (chr (0xF0 + x)))" unfolding b0 b1 by (rule ah)
    show "0x80 \<le> byte (chr (0x80 + z))" unfolding b2 using qz(2) by linarith
    show "byte (chr (0x80 + z)) \<le> 0xBF" unfolding b2 using qz(3) by linarith
    show "0x80 \<le> byte (chr (0x80 + u))" unfolding b3 using pu(2) by linarith
    show "byte (chr (0x80 + u)) \<le> 0xBF" unfolding b3 using pu(3) by linarith
  qed
  also have "\<dots> = (r, 4)" unfolding b0 b1 b2 b3 m0 m1 m2 m3 rf by simp
  finally show ?thesis unfolding e by simp
qed

lemma DecodeRune_EncodeRune:
  assumes "ValidRune r"
  shows "DecodeRune (EncodeRune r @ t) = (r, length (EncodeRune r))"
proof -
  consider (one) "0 \<le> r" "r \<le> 0x7F"
    | (two) "0x80 \<le> r" "r \<le> 0x7FF"
    | (three) "0x800 \<le> r" "r \<le> 0xFFFF" "r < 0xD800 \<or> 0xDFFF < r"
    | (four) "0x10000 \<le> r" "r \<le> 0x10FFFF"
    using assms unfolding ValidRune_def by linarith
  then show ?thesis
  proof cases
    case one
    then have e: "EncodeRune r = [chr r]" by (simp add: EncodeRune_def)
    have "byte (chr r) = r" using one by (intro byte_chr_small) linarith+
    then show ?thesis unfolding e using one DecodeRune_ascii[of "chr r" t] by simp
  next
    case two
    then show ?thesis by (rule enc_dec_two)
  next
    case three
    then show ?thesis by (rule enc_dec_three)
  next
    case four
    then show ?thesis by (rule enc_dec_four)
  qed
qed


section \<open>Vocabulary for the results\<close>

text \<open>
  The text every successful run starts with: the header of \<open>writeHeaderWithPackage\<close>,
  the comment naming the declaration kind, and the opener of the block.
\<close>

definition preamble :: "string \<Rightarrow> string \<Rightarrow> string" where
  "preamble pkg d =
     ''// Code generated automatically; DO NOT EDIT.'' @ [newline]
     @ [newline]
     @ ''package '' @ pkg @ [newline]
     @ [newline]
     @ ''// These '' @ d @ ''s are included from files by go generate.'' @ [newline]
     @ d @ '' (''"

text \<open>
  \<open>canStart W b pkg\<close>: the output destination can be made and the package name
  resolves to \<open>pkg\<close>.
\<close>

definition canStart :: "world \<Rightarrow> bundler \<Rightarrow> string \<Rightarrow> bool" where
  "canStart W b pkg =
     ((outFile b = [] \<or> os_Create W (outFile b) = None)
      \<and> (if pkgName b \<noteq> [] then pkg = pkgName b else importDir W = Inr pkg))"

text \<open>
  One iteration of the loop of \<open>ProcessFiles\<close>, taken alone: the text it writes for
  the file and the error it ends with, if any (lemma \<open>processLoop_step\<close> below).
\<close>

definition fileEntry :: "unicode_tables \<Rightarrow> world \<Rightarrow> bundler \<Rightarrow> string \<Rightarrow> string \<times> error option" where
  "fileEntry U W b fn =
     (case varNameFunc b fn (prefix b) of
        Inl err \<Rightarrow> ([], Some err)
      | Inr varName \<Rightarrow>
          (case quoteFile U W [] fn of
             (lit, res) \<Rightarrow>
               ([newline, tab] @ ''// file: '' @ fn @ [newline] @ [tab] @ varName @ '' = '' @ lit
                  @ (if res = None then [newline] else []),
                res)))"

text \<open>The line a verbose run prints on the error stream for a file.\<close>

definition logLine :: "string \<Rightarrow> string" where
  "logLine fn = ''processing file: '' @ fn @ [newline]"

text \<open>The text of a complete entry: what one iteration writes for a file that succeeds.\<close>

definition entryText :: "string \<Rightarrow> string \<Rightarrow> string \<Rightarrow> string" where
  "entryText fn ident lit =
     [newline, tab] @ ''// file: '' @ fn @ [newline] @ [tab] @ ident @ '' = '' @ lit @ [newline]"

text \<open>
  The output format of section 6 of the specification, line by line: the six header
  lines, two lines for each entry, and the closing parenthesis. \<open>spec_template\<close>
  follows the specification's words; \<open>emitted_template\<close> differs from it only in a
  blank line between two consecutive entries.
\<close>

definition unlines :: "string list \<Rightarrow> string" where
  "unlines ls = concat (map (\<lambda>l. l @ [newline]) ls)"

definition header_lines :: "string \<Rightarrow> string \<Rightarrow> string list" where
  "header_lines pkg d =
     [''// Code generated automatically; DO NOT EDIT.'',
      [],
      ''package '' @ pkg,
      [],
      ''// These '' @ d @ ''s are included from files by go generate.'',
      d @ '' ('']"

definition entry_lines :: "string \<times> string \<times> string \<Rightarrow> string list" where
  "entry_lines e = (case e of (fn, ident, lit) \<Rightarrow> [tab # ''// file: '' @ fn, tab # ident @ '' = '' @ lit])"

definition spec_template :: "string \<Rightarrow> string \<Rightarrow> (string \<times> string \<times> string) list \<Rightarrow> string" where
  "spec_template pkg d es = unlines (header_lines pkg d @ concat (map entry_lines es) @ ['')''])"

fun separated :: "string list list \<Rightarrow> string list" where
  "separated [] = []"
| "separated [e] = e"
| "separated (e # es) = e @ [[]] @ separated es"

definition emitted_template :: "string \<Rightarrow> string \<Rightarrow> (string \<times> string \<times> string) list \<Rightarrow> string" where
  "emitted_template pkg d es = unlines (header_lines pkg d @ separated (map entry_lines es) @ ['')''])"

text \<open>
  The character classes of \<open>filterInvalidChars\<close>: an identifier character, a digit
  and a letter (with the underscore), each decided by the ASCII test below
  \<open>RuneSelf\<close> and by the Unicode tables from there on.
\<close>

definition identRune :: "unicode_tables \<Rightarrow> int \<Rightarrow> bool" where
  "identRune U c =
     (if RuneSelf \<le> c then unicode_IsLetter U c \<or> c = byte CHR ''_'' \<or> unicode_IsDigit U c
      else isLetter c \<or> isDigit c)"

definition digitRune :: "unicode_tables \<Rightarrow> int \<Rightarrow> bool" where
  "digitRune U c = (if RuneSelf \<le> c then unicode_IsDigit U c else isDigit c)"

definition letterRune :: "unicode_tables \<Rightarrow> int \<Rightarrow> bool" where
  "letterRune U c = (if RuneSelf \<le> c then unicode_IsLetter U c else isLetter c)"

text \<open>The runes \<open>filterInvalidChars\<close> keeps (lemma \<open>filterInvalidChars_kept\<close>).\<close>

definition keptRunes :: "unicode_tables \<Rightarrow> int list \<Rightarrow> int list" where
  "keptRunes U buf =
     (case buf of
        [] \<Rightarrow> []
      | c # cs \<Rightarrow> (if identRune U c \<and> \<not> digitRune U c then [c] else []) @ filter (identRune U) cs)"

text \<open>
  The identifier characters of the camel-cased name, a digit at index 0 left out: what
  the specification's sanitizer is to work on once the leading digit is dropped.
\<close>

definition candidateRunes :: "unicode_tables \<Rightarrow> string \<Rightarrow> int list" where
  "candidateRunes U name =
     filter (identRune U)
       (case runes (toCamelCase U name) of
          [] \<Rightarrow> []
        | c # cs \<Rightarrow> if digitRune U c then cs else c # cs)"

text \<open>
  The specification's identifier: not empty, starts with a letter or underscore, holds
  only letters, digits and underscores.
\<close>

definition validIdentifier :: "unicode_tables \<Rightarrow> string \<Rightarrow> bool" where
  "validIdentifier U s =
     (case runes s of
        [] \<Rightarrow> False
      | c # cs \<Rightarrow> letterRune U c \<and> list_all (identRune U) cs)"

definition noSeparators :: "string \<Rightarrow> bool" where
  "noSeparators s = list_all (\<lambda>r. \<not> isSeparator r) (runes s)"

text \<open>
  A name with its first rune in title case, and the condition that this rune is again
  a letter: always so when the first rune is ASCII, a property of the title-case table
  otherwise.
\<close>

definition titleCased :: "unicode_tables \<Rightarrow> string \<Rightarrow> string" where
  "titleCased U s =
     (case runes s of
        [] \<Rightarrow> []
      | c # cs \<Rightarrow> encodeRunes (unicode_ToTitle U c # cs))"

definition titleIsLetter :: "unicode_tables \<Rightarrow> string \<Rightarrow> bool" where
  "titleIsLetter U s =
     (case runes s of
        [] \<Rightarrow> False
      | c # cs \<Rightarrow>
          c < RuneSelf
          \<or> (ValidRune (unicode_ToTitle U c) \<and> letterRune U (unicode_ToTitle U c)
              \<and> \<not> digitRune U (unicode_ToTitle U c)))"

text \<open>
  \<open>cutsAt s p\<close>: the offset \<open>p\<close> of \<open>s\<close> lies inside a well-formed multi-byte
  UTF-8 sequence of \<open>s\<close>, decoded from the start as \<open>strconv.AppendQuote\<close> decodes
  it (an ill-formed byte is one byte wide, so no offset lies inside it).
  \<open>boundaries cs\<close> are the offsets, in the concatenated contents, at which one
  chunk ends and the next begins; \<open>uncut cs\<close>: none of them lies inside a
  well-formed multi-byte sequence of the contents.
\<close>

function cutsAt :: "string \<Rightarrow> nat \<Rightarrow> bool" where
  "cutsAt s p =
     (if s = [] \<or> p = 0 then False
      else (case DecodeRune s of (r, w) \<Rightarrow> if p < w then True else cutsAt (drop w s) (p - w)))"
  by pat_completeness auto
termination
proof (relation "measure (\<lambda>(s, p). length s)")
  show "wf (measure (\<lambda>(s, p). length s))" by simp
next
  fix s :: string and p :: nat and r :: int and w :: nat
  assume "\<not> (s = [] \<or> p = 0)" and "(r, w) = DecodeRune s" and "\<not> p < w"
  then show "((drop w s, p - w), (s, p)) \<in> measure (\<lambda>(s, p). length s)"
    using DecodeRune_drop_shorter[of s r w] by simp
qed

declare cutsAt.simps [simp del]

definition boundaries :: "string list \<Rightarrow> nat list" where
  "boundaries cs = map (\<lambda>k. length (concat (take k cs))) [1..<length cs]"

definition uncut :: "string list \<Rightarrow> bool" where
  "uncut cs = list_all (\<lambda>p. \<not> cutsAt (concat cs) p) (boundaries cs)"

text \<open>
  The results of the calls of \<open>Read\<close> on one file, as \<open>quoteFile\<close> tells them
  apart: the call that ends the file (no byte and \<open>io.EOF\<close>), a call that fails (an
  error other than \<open>io.EOF\<close>), and the others, whose bytes are escaped and written.
  A file is \<open>readable\<close> when no call fails before the file ends; its literal is then
  \<open>literalOf\<close>.
\<close>

definition endOfFile :: "read_result \<Rightarrow> bool" where
  "endOfFile rr = (fst rr = [] \<and> snd rr = Some EOF)"

definition readFailure :: "read_result \<Rightarrow> bool" where
  "readFailure rr = (snd rr \<noteq> None \<and> snd rr \<noteq> Some EOF)"

definition readsBeforeEnd :: "read_result list \<Rightarrow> read_result list" where
  "readsBeforeEnd reads = takeWhile (\<lambda>rr. \<not> endOfFile rr) reads"

definition readable :: "read_result list \<Rightarrow> bool" where
  "readable reads = list_all (\<lambda>rr. \<not> readFailure rr) (readsBeforeEnd reads)"

definition escaped :: "unicode_tables \<Rightarrow> read_result list \<Rightarrow> string" where
  "escaped U reads = concat (map (\<lambda>rr. quoteLoop U (fst rr)) reads)"

definition literalOf :: "unicode_tables \<Rightarrow> read_result list \<Rightarrow> string" where
  "literalOf U reads = [dquote] @ escaped U (readsBeforeEnd reads) @ [dquote]"

text \<open>The start of an entry: what an iteration has written when it opens the file.\<close>

definition entryStart :: "string \<Rightarrow> string \<Rightarrow> string" where
  "entryStart fn ident = [newline, tab] @ ''// file: '' @ fn @ [newline] @ [tab] @ ident @ '' = ''"


text \<open>
  The one-shot escaper of claim C10: the whole contents quoted in a single pass, the
  outer quotes stripped once.
\<close>

definition oneShotBody :: "unicode_tables \<Rightarrow> string \<Rightarrow> string" where
  "oneShotBody U bs =
     (let quoted = strconv_AppendQuote U [] bs in slice quoted 1 (length quoted - 1))"

text \<open>A small world and bundler for running the model.\<close>

definition example_world :: world where
  "example_world =
     \<lparr> os_Open = (\<lambda>p. if p = ''foo.json'' then Inr (regular_file ''{}'')
                       else if p = ''foo.txt'' then Inr (regular_file ''hi'')
                       else if p = ''empty.json'' then Inr (regular_file [])
                       else if p = ''bin.dat''
                       then Inr (regular_file [CHR 0x00, dquote, bslash, newline,
                                               CHR 0xC3, CHR 0xA9, CHR 0xFF])
                       else Inl (SysError ''no such file or directory'')),
       os_Create = (\<lambda>p. None),
       importDir = Inr ''main'' \<rparr>"


definition example_bundler :: bundler where
  "example_bundler = NewBundler latin1_tables [] [] [] False None"

text \<open>
  A world in which one file is rejected by name, one cannot be opened and one fails
  while it is read, and a world whose every file delivers the given reads (a pipe).
\<close>

definition faulty_world :: world where
  "faulty_world =
     \<lparr> os_Open = (\<lambda>p. if p = ''foo.txt'' then Inr (regular_file ''hi'')
                       else if p = ''1map.txt'' then Inr (regular_file ''m'')
                       else if p = ''broken.txt''
                       then Inr [(''ab'', None), (''c'', Some (SysError ''input/output error'')),
                                 ([], Some EOF)]
                       else Inl (SysError ''no such file or directory'')),
       os_Create = (\<lambda>p. None),
       importDir = Inr ''main'' \<rparr>"

definition reader_world :: "read_result list \<Rightarrow> world" where
  "reader_world reads =
     \<lparr> os_Open = (\<lambda>p. Inr reads), os_Create = (\<lambda>p. None), importDir = Inr ''main'' \<rparr>"

text \<open>
  Two files longer than one buffer: in the first a two-byte UTF-8 sequence lies across
  the end of the first buffer; in the second the first buffer ends with an ill-formed
  byte and the two-byte sequence starts the second buffer.
\<close>

definition split_example :: string where
  "split_example = replicate 4095 (CHR ''a'') @ [CHR 0xC3, CHR 0xA9]"

definition split_world :: world where
  "split_world =
     \<lparr> os_Open = (\<lambda>p. Inr (regular_file split_example)),
       os_Create = (\<lambda>p. None),
       importDir = Inr ''main'' \<rparr>"

definition mixed_example :: string where
  "mixed_example = replicate 4095 (CHR ''a'') @ [CHR 0xFF, CHR 0xC3, CHR 0xA9]"

section \<open>The bundler's loop\<close>

lemma AppendQuote_piece:
  "0 < length (strconv_AppendQuote U [] chunk)"
  "slice (strconv_AppendQuote U [] chunk) 1 (length (strconv_AppendQuote U [] chunk) - 1)
     = quoteLoop U chunk"
  by (simp_all add: strconv_AppendQuote_def slice_def)

lemma quoteLoopFile_Cons:
  "quoteLoopFile U ((chunk, e) # rest) out =
     (if e \<noteq> None \<and> e \<noteq> Some EOF then (out, e)
      else if e = Some EOF \<and> chunk = [] then (out @ [dquote], None)
      else quoteLoopFile U rest (out @ quoteLoop U chunk))"
  by (simp add: Let_def strconv_AppendQuote_def slice_def)

lemma quoteLoopFile_out:
  "quoteLoopFile U reads out
     = (out @ fst (quoteLoopFile U reads []), snd (quoteLoopFile U reads []))"
proof (induction reads arbitrary: out)
  case Nil
  show ?case by simp
next
  case (Cons rr reads)
  obtain chunk e where rr: "rr = (chunk, e)" by (cases rr)
  show ?case
  proof (cases "(e \<noteq> None \<and> e \<noteq> Some EOF) \<or> (e = Some EOF \<and> chunk = [])")
    case True
    then show ?thesis unfolding rr quoteLoopFile_Cons by auto
  next
    case False
    then have step: "\<And>acc. quoteLoopFile U (rr # reads) acc
                       = quoteLoopFile U reads (acc @ quoteLoop U chunk)"
      unfolding rr quoteLoopFile_Cons by auto
    have a: "quoteLoopFile U (rr # reads) out
        = (out @ quoteLoop U chunk @ fst (quoteLoopFile U reads []), snd (quoteLoopFile U reads []))"
      unfolding step using Cons.IH[of "out @ quoteLoop U chunk"] by simp
    have b: "quoteLoopFile U (rr # reads) []
        = (quoteLoop U chunk @ fst (quoteLoopFile U reads []), snd (quoteLoopFile U reads []))"
      unfolding step using Cons.IH[of "[] @ quoteLoop U chunk"] by simp
    show ?thesis unfolding a b by simp
  qed
qed

lemma quoteFile_out:
  "quoteFile U W out fn = (out @ fst (quoteFile U W [] fn), snd (quoteFile U W [] fn))"
proof (cases "os_Open W fn")
  case (Inl e)
  then show ?thesis by (simp add: quoteFile_def)
next
  case (Inr reads)
  have "quoteLoopFile U reads (out @ [dquote])
     = (out @ [dquote] @ fst (quoteLoopFile U reads []), snd (quoteLoopFile U reads []))"
    using quoteLoopFile_out[of U reads "out @ [dquote]"] by simp
  moreover have "quoteLoopFile U reads ([] @ [dquote])
     = ([dquote] @ fst (quoteLoopFile U reads []), snd (quoteLoopFile U reads []))"
    using quoteLoopFile_out[of U reads "[] @ [dquote]"] by simp
  ultimately show ?thesis using Inr by (simp add: quoteFile_def)
qed

lemma processLoop_step:
  "processLoop v U W b (fn # fns) st =
     (let st1 = st\<lparr>errStream := errStream st @ (if v then logLine fn else [])\<rparr>
      in case fileEntry U W b fn of
           (t, Some e) \<Rightarrow> (st1\<lparr>outStream := outStream st @ t\<rparr>, Some e)
         | (t, None) \<Rightarrow> processLoop v U W b fns (st1\<lparr>outStream := outStream st @ t\<rparr>))"
proof (cases "varNameFunc b fn (prefix b)")
  case (Inl e)
  then show ?thesis by (simp add: fileEntry_def logLine_def Let_def)
next
  case (Inr varName)
  obtain lit res where q: "quoteFile U W [] fn = (lit, res)" by (cases "quoteFile U W [] fn")
  have q': "\<And>out. quoteFile U W out fn = (out @ lit, res)"
    using quoteFile_out[of U W _ fn] q by simp
  show ?thesis
    using Inr q by (cases res) (simp_all add: fileEntry_def logLine_def Let_def q')
qed


lemma processLoop_all_ok:
  assumes "\<forall>f \<in> set fs. snd (fileEntry U W b f) = None"
  shows "processLoop v U W b fs st =
           (st\<lparr>errStream := errStream st @ (if v then concat (map logLine fs) else []),
               outStream := outStream st @ concat (map (\<lambda>f. fst (fileEntry U W b f)) fs)\<rparr>, None)"
  using assms
proof (induction fs arbitrary: st)
  case Nil
  show ?case by simp
next
  case (Cons f fs)
  obtain t where t: "fileEntry U W b f = (t, None)"
    using Cons.prems by (cases "fileEntry U W b f") auto
  have rest: "\<forall>f \<in> set fs. snd (fileEntry U W b f) = None" using Cons.prems by simp
  show ?case
    unfolding processLoop_step Let_def t
    by (simp add: Cons.IH[OF rest] t)
qed

lemma processLoop_fail:
  assumes "\<forall>f \<in> set pre. snd (fileEntry U W b f) = None"
    and "snd (fileEntry U W b f) = Some e"
  shows "processLoop v U W b (pre @ f # post) st =
           (st\<lparr>errStream := errStream st @ (if v then concat (map logLine (pre @ [f])) else []),
               outStream := outStream st @ concat (map (\<lambda>f. fst (fileEntry U W b f)) pre)
                              @ fst (fileEntry U W b f)\<rparr>, Some e)"
  using assms(1)
proof (induction pre arbitrary: st)
  case Nil
  obtain t where t: "fileEntry U W b f = (t, Some e)"
    using assms(2) by (cases "fileEntry U W b f") auto
  show ?case unfolding append_Nil processLoop_step Let_def t by simp
next
  case (Cons g pre)
  obtain t where t: "fileEntry U W b g = (t, None)"
    using Cons.prems by (cases "fileEntry U W b g") auto
  have rest: "\<forall>f \<in> set pre. snd (fileEntry U W b f) = None" using Cons.prems by simp
  show ?case
    unfolding append_Cons processLoop_step Let_def t
    by (simp add: Cons.IH[OF rest] t)
qed

lemma ProcessFiles_start:
  assumes "canStart W b pkg"
  shows "ProcessFiles v U W b fs =
           (case processLoop v U W b fs \<lparr>outStream = preamble pkg (decl b), errStream = []\<rparr> of
              (st, Some e) \<Rightarrow> (st, Some e)
            | (st, None) \<Rightarrow> (st\<lparr>outStream := outStream st @ '')'' @ [newline]\<rparr>, None))"
proof -
  have c: "(if outFile b \<noteq> [] then os_Create W (outFile b) else None) = None"
    using assms by (auto simp: canStart_def)
  have h: "(if pkgName b \<noteq> [] then Inr (writeHeaderWithPackage [] (pkgName b))
            else writeHeader W []) = Inr (writeHeaderWithPackage [] pkg)"
    using assms by (auto simp: canStart_def writeHeader_def getPkgName_def split: if_splits)
  show ?thesis
    unfolding ProcessFiles_def c h
    by (simp add: Let_def preamble_def writeHeaderWithPackage_def split: prod.splits option.splits)
qed

lemma ProcessFiles_all_ok:
  assumes "canStart W b pkg" and "\<forall>f \<in> set fs. snd (fileEntry U W b f) = None"
  shows "ProcessFiles v U W b fs =
           (\<lparr>outStream = preamble pkg (decl b) @ concat (map (\<lambda>f. fst (fileEntry U W b f)) fs)
                           @ '')'' @ [newline],
             errStream = (if v then concat (map logLine fs) else [])\<rparr>, None)"
  unfolding ProcessFiles_start[OF assms(1)] processLoop_all_ok[OF assms(2)] by simp

lemma ProcessFiles_fail:
  assumes "canStart W b pkg" and "\<forall>f \<in> set pre. snd (fileEntry U W b f) = None"
    and "snd (fileEntry U W b f) = Some e"
  shows "ProcessFiles v U W b (pre @ f # post) =
           (\<lparr>outStream = preamble pkg (decl b) @ concat (map (\<lambda>f. fst (fileEntry U W b f)) pre)
                           @ fst (fileEntry U W b f),
             errStream = (if v then concat (map logLine (pre @ [f])) else [])\<rparr>, Some e)"
  unfolding ProcessFiles_start[OF assms(1)] processLoop_fail[OF assms(2,3)] by simp



subsection \<open>Empty file, empty list\<close>


lemma chunks_Nil [simp]: "chunks n [] = []"
  by (simp add: chunks.simps)



lemma fileEntry_ok:
  assumes "varNameFunc b f (prefix b) = Inr n" and "quoteFile U W [] f = (l, None)"
  shows "fileEntry U W b f = (entryText f n l, None)"
  using assms by (simp add: fileEntry_def entryText_def)

lemma unlines_append: "unlines (xs @ ys) = unlines xs @ unlines ys"
  by (simp add: unlines_def)

lemma preamble_lines: "unlines (header_lines pkg d) = preamble pkg d @ [newline]"
  by (simp add: unlines_def header_lines_def preamble_def)

lemma entryText_lines: "entryText fn ident lit = [newline] @ unlines (entry_lines (fn, ident, lit))"
  by (simp add: entryText_def unlines_def entry_lines_def)

lemma entries_separated:
  assumes "es \<noteq> []"
  shows "concat (map (\<lambda>e. case e of (fn, ident, lit) \<Rightarrow> entryText fn ident lit) es)
           = [newline] @ unlines (separated (map entry_lines es))"
  using assms
proof (induction es)
  case Nil
  then show ?case by simp
next
  case (Cons e es)
  obtain fn ident lit where e: "e = (fn, ident, lit)" by (cases e)
  show ?case
  proof (cases es)
    case Nil
    then show ?thesis by (simp add: e entryText_lines)
  next
    case (Cons x xs)
    then have "es \<noteq> []" by simp
    from Cons.IH[OF this] show ?thesis
      by (simp add: e Cons entryText_lines unlines_append unlines_def)
  qed
qed

lemma ProcessFiles_entries:
  assumes "canStart W b pkg"
    and "\<forall>f \<in> set fs. varNameFunc b f (prefix b) = Inr (ident f) \<and> quoteFile U W [] f = (lit f, None)"
  shows "ProcessFiles v U W b fs =
           (\<lparr>outStream = preamble pkg (decl b) @ concat (map (\<lambda>f. entryText f (ident f) (lit f)) fs)
                           @ '')'' @ [newline],
             errStream = (if v then concat (map logLine fs) else [])\<rparr>, None)"
proof -
  have e: "\<forall>f \<in> set fs. fileEntry U W b f = (entryText f (ident f) (lit f), None)"
    using assms(2) fileEntry_ok by blast
  then have ok: "\<forall>f \<in> set fs. snd (fileEntry U W b f) = None" by simp
  have m: "map (\<lambda>f. fst (fileEntry U W b f)) fs = map (\<lambda>f. entryText f (ident f) (lit f)) fs"
    using e by (intro map_cong) auto
  show ?thesis
    unfolding ProcessFiles_all_ok[OF assms(1) ok, of v] m by simp
qed

subsection \<open>The shape of the output\<close>

text \<open>
  Claim C3, as amended. For every non-empty list of readable input files on which every
  identifier derivation succeeds, \<open>ProcessFiles\<close> returns no error and emits the
  header line, a blank line, the package line, a blank line, the declaration-kind
  comment, the opener, then for each input file in input order one comment line naming
  the file followed by one entry line, with one blank line between two consecutive
  entries, then the closing parenthesis. The specification's template has no blank
  line between entries: the counterexample is a run on two files.
\<close>

theorem output_template:
  assumes "canStart W b pkg" and "fs \<noteq> []"
    and "\<forall>f \<in> set fs. varNameFunc b f (prefix b) = Inr (ident f) \<and> quoteFile U W [] f = (lit f, None)"
  shows "ProcessFiles v U W b fs =
           (\<lparr>outStream = emitted_template pkg (decl b) (map (\<lambda>f. (f, ident f, lit f)) fs),
             errStream = (if v then concat (map logLine fs) else [])\<rparr>, None)"
proof -
  let ?es = "map (\<lambda>f. (f, ident f, lit f)) fs"
  have ne: "?es \<noteq> []" using assms(2) by simp
  have "concat (map (\<lambda>f. entryText f (ident f) (lit f)) fs)
          = concat (map (\<lambda>e. case e of (fn, i, l) \<Rightarrow> entryText fn i l) ?es)"
    by (simp add: comp_def)
  also have "\<dots> = [newline] @ unlines (separated (map entry_lines ?es))"
    by (rule entries_separated[OF ne])
  finally have c: "concat (map (\<lambda>f. entryText f (ident f) (lit f)) fs)
          = [newline] @ unlines (separated (map entry_lines ?es))" .
  have "emitted_template pkg (decl b) ?es
          = preamble pkg (decl b) @ [newline] @ unlines (separated (map entry_lines ?es))
              @ '')'' @ [newline]"
    unfolding emitted_template_def unlines_append preamble_lines by (simp add: unlines_def)
  then show ?thesis
    unfolding ProcessFiles_entries[OF assms(1,3)] c by simp
qed

lemma example_bundler_canStart: "canStart example_world example_bundler ''main''"
  by (simp add: canStart_def example_bundler_def NewBundler_def example_world_def)

lemma example_names:
  "varNameFunc example_bundler ''foo.json'' (prefix example_bundler) = Inr ''Foo''"
  "varNameFunc example_bundler ''foo.txt'' (prefix example_bundler) = Inr ''Foo''"
  "varNameFunc example_bundler ''empty.json'' (prefix example_bundler) = Inr ''Empty''"
  "varNameFunc example_bundler ''missing.txt'' (prefix example_bundler) = Inr ''Missing''"
  by code_simp+

lemma example_literals:
  "quoteFile latin1_tables example_world [] ''foo.json'' = ([dquote] @ ''{}'' @ [dquote], None)"
  "quoteFile latin1_tables example_world [] ''foo.txt'' = ([dquote] @ ''hi'' @ [dquote], None)"
  "quoteFile latin1_tables example_world [] ''empty.json'' = ([dquote, dquote], None)"
  "quoteFile latin1_tables example_world [] ''missing.txt''
     = ([], Some (SysError ''no such file or directory''))"
  by code_simp+

lemma example_decl: "decl example_bundler = ''var''"
  by (simp add: example_bundler_def NewBundler_def)


theorem output_template_witness:
  "ProcessFiles False latin1_tables example_world example_bundler [''empty.json'', ''foo.txt''] =
     (\<lparr>outStream = emitted_template ''main'' ''var''
                      [(''empty.json'', ''Empty'', [dquote, dquote]),
                       (''foo.txt'', ''Foo'', [dquote] @ ''hi'' @ [dquote])],
       errStream = []\<rparr>, None)"
proof -
  let ?ident = "\<lambda>f. if f = ''empty.json'' then ''Empty'' else ''Foo''"
  let ?lit = "\<lambda>f. if f = ''empty.json'' then [dquote, dquote] else [dquote] @ ''hi'' @ [dquote]"
  have "\<forall>f \<in> set [''empty.json'', ''foo.txt''].
          varNameFunc example_bundler f (prefix example_bundler) = Inr (?ident f)
          \<and> quoteFile latin1_tables example_world [] f = (?lit f, None)"
    by (simp add: example_names example_literals)
  from output_template[OF example_bundler_canStart _ this, of False]
  show ?thesis by (simp add: example_decl)
qed

theorem output_template_counterexample:
  "outStream (fst (ProcessFiles False latin1_tables example_world example_bundler
                     [''empty.json'', ''foo.txt'']))
     \<noteq> spec_template ''main'' ''var''
          [(''empty.json'', ''Empty'', [dquote, dquote]),
           (''foo.txt'', ''Foo'', [dquote] @ ''hi'' @ [dquote])]"
proof -
  let ?ident = "\<lambda>f. if f = ''empty.json'' then ''Empty'' else ''Foo''"
  let ?lit = "\<lambda>f. if f = ''empty.json'' then [dquote, dquote] else [dquote] @ ''hi'' @ [dquote]"
  have "\<forall>f \<in> set [''empty.json'', ''foo.txt''].
          varNameFunc example_bundler f (prefix example_bundler) = Inr (?ident f)
          \<and> quoteFile latin1_tables example_world [] f = (?lit f, None)"
    by (simp add: example_names example_literals)
  from ProcessFiles_entries[OF example_bundler_canStart this, of False]
  show ?thesis
    by (simp add: example_decl preamble_def entryText_def spec_template_def unlines_def
        header_lines_def entry_lines_def)
qed

subsection \<open>No uniqueness check\<close>

text \<open>
  Claim C8. For two distinct input files whose names sanitize to the same identifier,
  \<open>ProcessFiles\<close> returns no error and emits both entries with that identifier.
\<close>

theorem duplicate_identifiers_accepted:
  assumes "canStart W b pkg" and "f1 \<noteq> f2"
    and "varNameFunc b f1 (prefix b) = Inr n" and "varNameFunc b f2 (prefix b) = Inr n"
    and "quoteFile U W [] f1 = (l1, None)" and "quoteFile U W [] f2 = (l2, None)"
  shows "ProcessFiles v U W b [f1, f2] =
           (\<lparr>outStream = preamble pkg (decl b) @ entryText f1 n l1 @ entryText f2 n l2
                           @ '')'' @ [newline],
             errStream = (if v then logLine f1 @ logLine f2 else [])\<rparr>, None)"
proof -
  let ?lit = "\<lambda>f. if f = f1 then l1 else l2"
  have "\<forall>f \<in> set [f1, f2]. varNameFunc b f (prefix b) = Inr ((\<lambda>f. n) f)
          \<and> quoteFile U W [] f = (?lit f, None)"
    using assms(2-6) by simp
  from ProcessFiles_entries[OF assms(1) this, of v] assms(2)
  show ?thesis by simp
qed

theorem duplicate_identifiers_accepted_witness:
  "ProcessFiles False latin1_tables example_world example_bundler [''foo.json'', ''foo.txt''] =
     (\<lparr>outStream = preamble ''main'' ''var''
                      @ entryText ''foo.json'' ''Foo'' ([dquote] @ ''{}'' @ [dquote])
                      @ entryText ''foo.txt'' ''Foo'' ([dquote] @ ''hi'' @ [dquote])
                      @ '')'' @ [newline],
       errStream = []\<rparr>, None)"
proof -
  have ne: "''foo.json'' \<noteq> ''foo.txt''" by simp
  from duplicate_identifiers_accepted[OF example_bundler_canStart ne example_names(1,2)
      example_literals(1,2), of False]
  show ?thesis by (simp add: example_decl)
qed

subsection \<open>Fail fast\<close>

lemma quoteLoopFile_readable:
  "readable reads
     \<Longrightarrow> quoteLoopFile U reads out = (out @ escaped U (readsBeforeEnd reads) @ [dquote], None)"
proof (induction reads arbitrary: out)
  case Nil
  show ?case by (simp add: escaped_def readsBeforeEnd_def)
next
  case (Cons rr reads)
  obtain chunk e where rr: "rr = (chunk, e)" by (cases rr)
  show ?case
  proof (cases "endOfFile rr")
    case True
    then show ?thesis
      unfolding rr quoteLoopFile_Cons by (simp add: endOfFile_def escaped_def readsBeforeEnd_def)
  next
    case False
    with Cons.prems have nf: "\<not> readFailure rr" and r: "readable reads"
      by (simp_all add: readable_def readsBeforeEnd_def)
    from nf False rr have step: "quoteLoopFile U (rr # reads) out
                       = quoteLoopFile U reads (out @ quoteLoop U chunk)"
      unfolding rr quoteLoopFile_Cons by (auto simp: readFailure_def endOfFile_def)
    show ?thesis
      unfolding step Cons.IH[OF r] using False by (simp add: escaped_def readsBeforeEnd_def rr)
  qed
qed

lemma quoteLoopFile_failure:
  assumes "list_all (\<lambda>rr. \<not> readFailure rr \<and> \<not> endOfFile rr) good" and "e \<noteq> EOF"
  shows "quoteLoopFile U (good @ (chunk, Some e) # rest) out = (out @ escaped U good, Some e)"
  using assms(1)
proof (induction good arbitrary: out)
  case Nil
  show ?case unfolding append_Nil quoteLoopFile_Cons using assms(2) by (simp add: escaped_def)
next
  case (Cons rr good)
  obtain c x where rr: "rr = (c, x)" by (cases rr)
  from Cons.prems have nf: "\<not> readFailure rr" and ne: "\<not> endOfFile rr"
    and g: "list_all (\<lambda>rr. \<not> readFailure rr \<and> \<not> endOfFile rr) good" by simp_all
  from nf ne have step: "\<And>t. quoteLoopFile U (rr # t) out = quoteLoopFile U t (out @ quoteLoop U c)"
    unfolding rr quoteLoopFile_Cons by (auto simp: readFailure_def endOfFile_def)
  show ?case
    unfolding append_Cons step Cons.IH[OF g] by (simp add: escaped_def rr)
qed

lemma fileEntry_readable:
  assumes "varNameFunc b f (prefix b) = Inr n" and "os_Open W f = Inr reads" and "readable reads"
  shows "fileEntry U W b f = (entryText f n (literalOf U reads), None)"
proof -
  have "quoteFile U W [] f = (literalOf U reads, None)"
    using assms(2) quoteLoopFile_readable[OF assms(3), of U "[] @ [dquote]"]
    by (simp add: quoteFile_def literalOf_def)
  then show ?thesis by (rule fileEntry_ok[OF assms(1)])
qed

lemma fileEntry_rejected:
  assumes "varNameFunc b f (prefix b) = Inl e"
  shows "fileEntry U W b f = ([], Some e)"
  using assms by (simp add: fileEntry_def)

lemma fileEntry_open_failure:
  assumes "varNameFunc b f (prefix b) = Inr n" and "os_Open W f = Inl e"
  shows "fileEntry U W b f = (entryStart f n, Some e)"
  using assms by (simp add: fileEntry_def quoteFile_def entryStart_def)

lemma fileEntry_read_failure:
  assumes "varNameFunc b f (prefix b) = Inr n"
    and "os_Open W f = Inr (good @ (chunk, Some e) # rest)"
    and "list_all (\<lambda>rr. \<not> readFailure rr \<and> \<not> endOfFile rr) good" and "e \<noteq> EOF"
  shows "fileEntry U W b f = (entryStart f n @ [dquote] @ escaped U good, Some e)"
proof -
  have "quoteFile U W [] f = ([dquote] @ escaped U good, Some e)"
    using assms(2) quoteLoopFile_failure[OF assms(3,4), of U chunk rest "[] @ [dquote]"]
    by (simp add: quoteFile_def)
  then show ?thesis using assms(1) by (simp add: fileEntry_def entryStart_def)
qed

lemma ProcessFiles_abort:
  assumes "canStart W b pkg"
    and "\<forall>g \<in> set pre. varNameFunc b g (prefix b) = Inr (ident g)
                        \<and> os_Open W g = Inr (reads g) \<and> readable (reads g)"
    and "fileEntry U W b f = (partial, Some e)"
  shows "ProcessFiles v U W b (pre @ f # post) =
           (\<lparr>outStream = preamble pkg (decl b)
                           @ concat (map (\<lambda>g. entryText g (ident g) (literalOf U (reads g))) pre)
                           @ partial,
             errStream = (if v then concat (map logLine (pre @ [f])) else [])\<rparr>, Some e)"
proof -
  have en: "\<forall>g \<in> set pre. fileEntry U W b g = (entryText g (ident g) (literalOf U (reads g)), None)"
    using assms(2) fileEntry_readable by blast
  then have ok: "\<forall>g \<in> set pre. snd (fileEntry U W b g) = None" by simp
  have m: "map (\<lambda>g. fst (fileEntry U W b g)) pre
             = map (\<lambda>g. entryText g (ident g) (literalOf U (reads g))) pre"
    using en by (intro map_cong) auto
  have s: "snd (fileEntry U W b f) = Some e" using assms(3) by simp
  show ?thesis
    unfolding ProcessFiles_fail[OF assms(1) ok s, of v post] m using assms(3) by simp
qed

text \<open>
  Claim C6. Let every file before \<open>f\<close> in the list get an identifier and be readable
  (it opens, and no \<open>Read\<close> fails before its end), and let \<open>f\<close> be the first file to
  cause an error \<open>e\<close>, in one of the three ways: its identifier is rejected; or it gets
  the identifier \<open>n\<close> and cannot be opened; or it gets \<open>n\<close>, opens, and after the
  reads \<open>good\<close>, none of which fails or ends the file, a \<open>Read\<close> fails with \<open>e\<close>.
  Then \<open>ProcessFiles\<close> returns \<open>e\<close>; the output holds the preamble, the complete
  entries of the files before \<open>f\<close>, and what the iteration of \<open>f\<close> wrote before
  it failed (nothing; the start of the entry; the start of the entry, the opening quote
  and the escaped text of the reads before the failure), and nothing for any later
  file: the run, error stream included, is the same as on the list cut off after \<open>f\<close>.
\<close>

theorem first_error_aborts:
  assumes "canStart W b pkg"
    and "\<forall>g \<in> set pre. varNameFunc b g (prefix b) = Inr (ident g)
                        \<and> os_Open W g = Inr (reads g) \<and> readable (reads g)"
    and "(varNameFunc b f (prefix b) = Inl e \<and> partial = [])
         \<or> (varNameFunc b f (prefix b) = Inr n \<and> os_Open W f = Inl e \<and> partial = entryStart f n)
         \<or> (varNameFunc b f (prefix b) = Inr n \<and> os_Open W f = Inr (good @ (chunk, Some e) # rest)
            \<and> list_all (\<lambda>rr. \<not> readFailure rr \<and> \<not> endOfFile rr) good \<and> e \<noteq> EOF
            \<and> partial = entryStart f n @ [dquote] @ escaped U good)"
  shows "ProcessFiles v U W b (pre @ f # post) =
           (\<lparr>outStream = preamble pkg (decl b)
                           @ concat (map (\<lambda>g. entryText g (ident g) (literalOf U (reads g))) pre)
                           @ partial,
             errStream = (if v then concat (map logLine (pre @ [f])) else [])\<rparr>, Some e)
         \<and> ProcessFiles v U W b (pre @ f # post) = ProcessFiles v U W b (pre @ [f])"
proof -
  have fe: "fileEntry U W b f = (partial, Some e)"
    using assms(3) fileEntry_rejected[of b f e U W] fileEntry_open_failure[of b f n W e U]
      fileEntry_read_failure[of b f n W good chunk e rest U]
    by blast
  have a: "ProcessFiles v U W b (pre @ f # post) =
           (\<lparr>outStream = preamble pkg (decl b)
                           @ concat (map (\<lambda>g. entryText g (ident g) (literalOf U (reads g))) pre)
                           @ partial,
             errStream = (if v then concat (map logLine (pre @ [f])) else [])\<rparr>, Some e)" for post
    by (rule ProcessFiles_abort[OF assms(1,2) fe])
  show ?thesis using a[of post] a[of "[]"] by simp
qed

lemma faulty_canStart: "canStart faulty_world example_bundler ''main''"
  by (simp add: canStart_def example_bundler_def NewBundler_def faulty_world_def)

lemma faulty_names:
  "varNameFunc example_bundler ''1map.txt'' (prefix example_bundler)
     = Inl (ErrorString ''reserved keyword'')"
  "varNameFunc example_bundler ''broken.txt'' (prefix example_bundler) = Inr ''Broken''"
  by code_simp+

lemma faulty_files:
  "os_Open faulty_world ''foo.txt'' = Inr (regular_file ''hi'')"
  "os_Open faulty_world ''missing.txt'' = Inl (SysError ''no such file or directory'')"
  "os_Open faulty_world ''broken.txt''
     = Inr ([(''ab'', None)] @ (''c'', Some (SysError ''input/output error'')) # [([], Some EOF)])"
  by (simp_all add: faulty_world_def)

lemma faulty_reads:
  "readable (regular_file ''hi'')"
  "literalOf latin1_tables (regular_file ''hi'') = [dquote] @ ''hi'' @ [dquote]"
  "list_all (\<lambda>rr. \<not> readFailure rr \<and> \<not> endOfFile rr) [(''ab'', None)]"
  "escaped latin1_tables [(''ab'', None)] = ''ab''"
  by code_simp+

theorem first_error_aborts_witness:
  "ProcessFiles True latin1_tables faulty_world example_bundler
       ([''foo.txt''] @ ''1map.txt'' # [''foo.txt'']) =
     (\<lparr>outStream = preamble ''main'' ''var''
                      @ entryText ''foo.txt'' ''Foo'' ([dquote] @ ''hi'' @ [dquote]),
       errStream = logLine ''foo.txt'' @ logLine ''1map.txt''\<rparr>,
      Some (ErrorString ''reserved keyword''))
   \<and> ProcessFiles True latin1_tables faulty_world example_bundler
       ([''foo.txt''] @ ''missing.txt'' # [''foo.txt'']) =
     (\<lparr>outStream = preamble ''main'' ''var''
                      @ entryText ''foo.txt'' ''Foo'' ([dquote] @ ''hi'' @ [dquote])
                      @ entryStart ''missing.txt'' ''Missing'',
       errStream = logLine ''foo.txt'' @ logLine ''missing.txt''\<rparr>,
      Some (SysError ''no such file or directory''))
   \<and> ProcessFiles True latin1_tables faulty_world example_bundler
       ([''foo.txt''] @ ''broken.txt'' # [''foo.txt'']) =
     (\<lparr>outStream = preamble ''main'' ''var''
                      @ entryText ''foo.txt'' ''Foo'' ([dquote] @ ''hi'' @ [dquote])
                      @ entryStart ''broken.txt'' ''Broken'' @ [dquote] @ ''ab'',
       errStream = logLine ''foo.txt'' @ logLine ''broken.txt''\<rparr>,
      Some (SysError ''input/output error''))"
proof -
  let ?ident = "\<lambda>g :: string. ''Foo''"
  let ?reads = "\<lambda>g :: string. regular_file ''hi''"
  have p: "\<forall>g \<in> set [''foo.txt''].
             varNameFunc example_bundler g (prefix example_bundler) = Inr (?ident g)
             \<and> os_Open faulty_world g = Inr (?reads g) \<and> readable (?reads g)"
    by (simp add: example_names faulty_files faulty_reads)
  have rejected: "ProcessFiles True latin1_tables faulty_world example_bundler
       ([''foo.txt''] @ ''1map.txt'' # [''foo.txt'']) =
     (\<lparr>outStream = preamble ''main'' ''var''
                      @ entryText ''foo.txt'' ''Foo'' ([dquote] @ ''hi'' @ [dquote]),
       errStream = logLine ''foo.txt'' @ logLine ''1map.txt''\<rparr>,
      Some (ErrorString ''reserved keyword''))"
    using first_error_aborts[OF faulty_canStart p, where f = "''1map.txt''"
        and e = "ErrorString ''reserved keyword''" and partial = "[]"
        and v = True and post = "[''foo.txt'']" and U = latin1_tables, THEN conjunct1]
      faulty_names(1)
    by (simp add: example_decl faulty_reads)
  have unopened: "ProcessFiles True latin1_tables faulty_world example_bundler
       ([''foo.txt''] @ ''missing.txt'' # [''foo.txt'']) =
     (\<lparr>outStream = preamble ''main'' ''var''
                      @ entryText ''foo.txt'' ''Foo'' ([dquote] @ ''hi'' @ [dquote])
                      @ entryStart ''missing.txt'' ''Missing'',
       errStream = logLine ''foo.txt'' @ logLine ''missing.txt''\<rparr>,
      Some (SysError ''no such file or directory''))"
    using first_error_aborts[OF faulty_canStart p, where f = "''missing.txt''"
        and e = "SysError ''no such file or directory''" and n = "''Missing''"
        and partial = "entryStart ''missing.txt'' ''Missing''"
        and v = True and post = "[''foo.txt'']" and U = latin1_tables, THEN conjunct1]
      example_names(4) faulty_files(2)
    by (simp add: example_decl faulty_reads)
  have unread: "ProcessFiles True latin1_tables faulty_world example_bundler
       ([''foo.txt''] @ ''broken.txt'' # [''foo.txt'']) =
     (\<lparr>outStream = preamble ''main'' ''var''
                      @ entryText ''foo.txt'' ''Foo'' ([dquote] @ ''hi'' @ [dquote])
                      @ entryStart ''broken.txt'' ''Broken'' @ [dquote] @ ''ab'',
       errStream = logLine ''foo.txt'' @ logLine ''broken.txt''\<rparr>,
      Some (SysError ''input/output error''))"
    using first_error_aborts[OF faulty_canStart p, where f = "''broken.txt''"
        and e = "SysError ''input/output error''" and n = "''Broken''"
        and good = "[(''ab'', None)]" and chunk = "''c''" and rest = "[([], Some EOF)]"
        and partial = "entryStart ''broken.txt'' ''Broken'' @ [dquote] @ ''ab''"
        and v = True and post = "[''foo.txt'']" and U = latin1_tables, THEN conjunct1]
      faulty_names(2) faulty_files(3) faulty_reads(3,4)
    by (simp add: example_decl faulty_reads)
  show ?thesis using rejected unopened unread by blast
qed

section \<open>Facts about the sanitizer\<close>

lemma skipRune_iff: "skipRune U i c = (\<not> identRune U c \<or> (i = 0 \<and> digitRune U c))"
  by (auto simp: skipRune_def identRune_def digitRune_def)

lemma filter_fold_invariant:
  assumes "k \<le> length buf"
  shows "\<exists>b l. fold (filterStep U) [0..<k] (buf, 0) = (b, l) \<and> l \<le> k \<and> length b = length buf
           \<and> drop k b = drop k buf
           \<and> take l b = map snd (filter (\<lambda>(i, c). \<not> skipRune U i c) (zip [0..<k] (take k buf)))"
  using assms
proof (induction k)
  case 0
  show ?case by simp
next
  case (Suc k)
  then have klt: "k < length buf" by simp
  from Suc.IH klt obtain b l where
    f: "fold (filterStep U) [0..<k] (buf, 0) = (b, l)" and l: "l \<le> k" and len: "length b = length buf"
    and dr: "drop k b = drop k buf"
    and tk: "take l b = map snd (filter (\<lambda>(i, c). \<not> skipRune U i c) (zip [0..<k] (take k buf)))"
    by auto
  have bk: "b ! k = buf ! k"
  proof -
    have "b ! k = hd (drop k b)" using klt len by (simp add: hd_drop_conv_nth)
    also have "\<dots> = hd (drop k buf)" by (simp only: dr)
    also have "\<dots> = buf ! k" using klt by (simp add: hd_drop_conv_nth)
    finally show ?thesis .
  qed
  have z: "zip [0..<Suc k] (take (Suc k) buf) = zip [0..<k] (take k buf) @ [(k, buf ! k)]"
    using klt by (simp add: take_Suc_conv_app_nth)
  have fo: "fold (filterStep U) [0..<Suc k] (buf, 0) = filterStep U k (b, l)"
    by (simp add: f)
  show ?case
  proof (cases "skipRune U k (buf ! k)")
    case True
    then have "filterStep U k (b, l) = (b, l)" by (simp add: filterStep_def bk)
    moreover have "drop (Suc k) b = drop (Suc k) buf"
      using dr by (metis drop_drop plus_1_eq_Suc)
    ultimately show ?thesis
      unfolding fo z using True l len tk by simp
  next
    case False
    let ?b' = "if k \<noteq> l then b[l := buf ! k] else b"
    have st: "filterStep U k (b, l) = (?b', l + 1)"
      using False by (simp add: filterStep_def bk)
    have b'eq: "?b' = b[l := buf ! k]"
    proof (cases "k = l")
      case True
      then have "b[l := buf ! k] = b[l := b ! l]" using bk by simp
      then show ?thesis using True by simp
    next
      case False
      then show ?thesis by simp
    qed
    have d1: "drop (Suc k) b = drop (Suc k) buf"
      using dr by (metis drop_drop plus_1_eq_Suc)
    have d: "drop (Suc k) ?b' = drop (Suc k) buf"
      unfolding b'eq using l d1 by simp
    have t: "take (l + 1) ?b' = take l b @ [buf ! k]"
      unfolding b'eq using l klt len by (simp add: take_Suc_conv_app_nth)
    show ?thesis
      unfolding fo z st using False l len d t tk by simp
  qed
qed

lemma filter_zip_positions:
  "map snd (filter (\<lambda>(i, c). \<not> skipRune U i c) (zip [n..<n + length cs] cs))
     = (if n = 0 then keptRunes U cs else filter (identRune U) cs)"
proof (induction cs arbitrary: n)
  case Nil
  show ?case by (simp add: keptRunes_def)
next
  case (Cons c cs)
  have u: "[n..<n + length (c # cs)] = n # [Suc n..<Suc n + length cs]"
    by (subst upt_rec) simp
  have r: "map snd (filter (\<lambda>(i, c). \<not> skipRune U i c) (zip [Suc n..<Suc n + length cs] cs))
             = filter (identRune U) cs"
    using Cons.IH[of "Suc n"] by simp
  show ?case
    unfolding u using r by (auto simp: skipRune_iff keptRunes_def)
qed

lemma filterInvalidChars_kept:
  "filterInvalidChars U s = encodeRunes (keptRunes U (runes s))"
proof -
  let ?buf = "runes s"
  from filter_fold_invariant[of "length ?buf" ?buf U] obtain b l where
    f: "fold (filterStep U) [0..<length ?buf] (?buf, 0) = (b, l)"
    and tk: "take l b = map snd (filter (\<lambda>(i, c). \<not> skipRune U i c)
                                   (zip [0..<length ?buf] (take (length ?buf) ?buf)))"
    by auto
  have "take l b = keptRunes U ?buf"
    unfolding tk using filter_zip_positions[of U 0 ?buf] by simp
  then show ?thesis by (simp add: filterInvalidChars_def Let_def f)
qed


lemma runes_Nil [simp]: "runes [] = []"
  by (simp add: runes.simps)

lemma runes_Cons:
  "runes (c # cs) = (case DecodeRune (c # cs) of (r, w) \<Rightarrow> r # runes (drop w (c # cs)))"
  by (subst runes.simps) simp

lemma runes_valid: "r \<in> set (runes s) \<Longrightarrow> ValidRune r"
proof (induction s arbitrary: r rule: runes.induct)
  case (1 s)
  show ?case
  proof (cases "s = []")
    case True
    with "1.prems" show ?thesis by simp
  next
    case False
    obtain x w where d: "DecodeRune s = (x, w)" by (cases "DecodeRune s")
    have rs: "runes s = x # runes (drop w s)"
      using False d by (subst runes.simps) simp
    from "1.prems" rs have "r = x \<or> r \<in> set (runes (drop w s))" by simp
    then show ?thesis
    proof
      assume "r = x"
      then show ?thesis using DecodeRune_ValidRune[OF d] by simp
    next
      assume "r \<in> set (runes (drop w s))"
      then show ?thesis by (rule "1.IH"[OF False d[symmetric]])
    qed
  qed
qed

lemma EncodeRune_nonempty: "EncodeRune r \<noteq> []"
  by (simp add: EncodeRune_def enc2_def enc3_def enc4_def)

lemma runes_EncodeRune_append:
  assumes "ValidRune r"
  shows "runes (EncodeRune r @ t) = r # runes t"
proof -
  obtain c cs where e: "EncodeRune r @ t = c # cs"
    using EncodeRune_nonempty[of r] by (cases "EncodeRune r @ t") auto
  have d: "DecodeRune (c # cs) = (r, length (EncodeRune r))"
    using DecodeRune_EncodeRune[OF assms, of t] e by simp
  have "runes (c # cs) = r # runes (drop (length (EncodeRune r)) (c # cs))"
    unfolding runes_Cons d by simp
  then show ?thesis unfolding e[symmetric] by simp
qed

lemma runes_encodeRunes:
  assumes "\<forall>r \<in> set rs. ValidRune r"
  shows "runes (encodeRunes rs) = rs"
  using assms
proof (induction rs)
  case Nil
  show ?case by (simp add: encodeRunes_def)
next
  case (Cons r rs)
  then have v: "ValidRune r" and rest: "\<forall>r \<in> set rs. ValidRune r" by simp_all
  have "encodeRunes (r # rs) = EncodeRune r @ encodeRunes rs" by (simp add: encodeRunes_def)
  then show ?case using runes_EncodeRune_append[OF v] Cons.IH[OF rest] by simp
qed

lemma ValidRune_nonneg: "ValidRune r \<Longrightarrow> 0 \<le> r"
  by (auto simp: ValidRune_def)

lemma mapRunes_camel_inside:
  assumes "\<forall>r \<in> set cs. \<not> isSeparator r \<and> 0 \<le> r"
  shows "mapRunes (camelMapping U) False cs = encodeRunes cs"
  using assms by (induction cs) (simp_all add: camelMapping_def encodeRunes_def)

lemma mapRunes_camel_start:
  assumes "\<not> isSeparator c" and "0 \<le> unicode_ToTitle U c"
    and "\<forall>r \<in> set cs. \<not> isSeparator r \<and> 0 \<le> r"
  shows "mapRunes (camelMapping U) True (c # cs) = encodeRunes (unicode_ToTitle U c # cs)"
  using assms(1,2) mapRunes_camel_inside[OF assms(3), of U]
  by (simp add: camelMapping_def encodeRunes_def)

lemma isReservedKeyword_iff: "isReservedKeyword kw = (kw \<in> set keywords_list)"
proof -
  have "\<And>ws. isReservedKeywordIn ws kw = (kw \<in> set ws)"
  proof -
    fix ws show "isReservedKeywordIn ws kw = (kw \<in> set ws)" by (induction ws) auto
  qed
  then show ?thesis by (simp add: isReservedKeyword_def)
qed

lemma makeVarName_eq:
  "makeVarName U name pfx =
     (if pfx @ filterInvalidChars U (toCamelCase U name) \<in> set keywords_list
      then Inl (ErrorString ''reserved keyword'')
      else Inr (pfx @ filterInvalidChars U (toCamelCase U name)))"
  by (cases "pfx = []") (simp_all add: makeVarName_def Let_def isReservedKeyword_iff)

lemma ascii_title:
  assumes "c < RuneSelf" and "letterRune U c" and "\<not> isSeparator c"
  shows "ValidRune (unicode_ToTitle U c) \<and> letterRune U (unicode_ToTitle U c)
         \<and> \<not> digitRune U (unicode_ToTitle U c)"
proof -
  from assms have c: "(97 \<le> c \<and> c \<le> 122) \<or> (65 \<le> c \<and> c \<le> 90)"
    by (auto simp: letterRune_def isLetter_def isSeparator_def RuneSelf_def)
  then have t: "65 \<le> unicode_ToTitle U c \<and> unicode_ToTitle U c \<le> 90"
    by (auto simp: unicode_ToTitle_def)
  then show ?thesis
    by (auto simp: ValidRune_def letterRune_def digitRune_def isLetter_def isDigit_def RuneSelf_def)
qed

lemma sanitize_valid_name:
  assumes "validIdentifier U name" and "noSeparators name" and "titleIsLetter U name"
  shows "filterInvalidChars U (toCamelCase U name) = titleCased U name"
proof -
  from assms(1) obtain c cs where rn: "runes name = c # cs"
    and l: "letterRune U c" and ids: "list_all (identRune U) cs"
    by (auto simp: validIdentifier_def split: list.splits)
  have nosep: "\<not> isSeparator c" "\<forall>r \<in> set cs. \<not> isSeparator r"
    using assms(2) rn by (simp_all add: noSeparators_def list_all_iff)
  have t: "ValidRune (unicode_ToTitle U c) \<and> letterRune U (unicode_ToTitle U c)
           \<and> \<not> digitRune U (unicode_ToTitle U c)"
  proof (cases "c < RuneSelf")
    case True
    then show ?thesis by (rule ascii_title[OF _ l nosep(1)])
  next
    case False
    with assms(3) rn show ?thesis by (simp add: titleIsLetter_def)
  qed
  then have tv: "ValidRune (unicode_ToTitle U c)"
    and tl: "letterRune U (unicode_ToTitle U c)" and td: "\<not> digitRune U (unicode_ToTitle U c)"
    by simp_all
  have valid: "\<forall>r \<in> set (c # cs). ValidRune r"
    using runes_valid[of _ name] rn by simp
  have inside: "\<forall>r \<in> set cs. \<not> isSeparator r \<and> 0 \<le> r"
    using nosep(2) valid ValidRune_nonneg by simp
  have camel: "toCamelCase U name = encodeRunes (unicode_ToTitle U c # cs)"
    unfolding toCamelCase_def strings_Map_def rn
    by (rule mapRunes_camel_start[OF nosep(1) ValidRune_nonneg[OF tv] inside])
  have v2: "\<forall>r \<in> set (unicode_ToTitle U c # cs). ValidRune r" using tv valid by simp
  have rr: "runes (toCamelCase U name) = unicode_ToTitle U c # cs"
    unfolding camel by (rule runes_encodeRunes[OF v2])
  have ti: "identRune U (unicode_ToTitle U c)"
    using tl by (auto simp: letterRune_def identRune_def split: if_splits)
  have "keptRunes U (unicode_ToTitle U c # cs) = unicode_ToTitle U c # cs"
    using ti td ids by (simp add: keptRunes_def list_all_iff)
  then show ?thesis
    unfolding filterInvalidChars_kept rr by (simp add: titleCased_def rn)
qed


lemma sanitized_runes:
  "runes (filterInvalidChars U s) = keptRunes U (runes s)"
proof -
  have "set (keptRunes U (runes s)) \<subseteq> set (runes s)"
    by (cases "runes s") (auto simp: keptRunes_def)
  then have "\<forall>r \<in> set (keptRunes U (runes s)). ValidRune r"
    using runes_valid[of _ s] by blast
  then show ?thesis unfolding filterInvalidChars_kept by (rule runes_encodeRunes)
qed

lemma digitRune_identRune: "digitRune U c \<Longrightarrow> identRune U c"
  by (auto simp: digitRune_def identRune_def split: if_splits)

lemma identRune_cases: "identRune U c \<Longrightarrow> \<not> digitRune U c \<Longrightarrow> letterRune U c"
  by (auto simp: identRune_def digitRune_def letterRune_def isLetter_def isDigit_def
      RuneSelf_def split: if_splits)

lemma keptRunes_candidates: "keptRunes U (runes (toCamelCase U name)) = candidateRunes U name"
  using digitRune_identRune[of U]
  by (auto simp: keptRunes_def candidateRunes_def split: list.splits)

subsection \<open>The characters of an identifier\<close>

text \<open>
  Claim C1, as amended. For every raw filename and empty prefix, if \<open>makeVarName\<close>
  returns without error, the returned identifier holds only letters, digits and
  underscores. Take the identifier characters of the camel-cased name, a digit at index
  0 left out: whenever the first of them is not a digit, the identifier consists of
  exactly these characters, so it is not empty, starts with that letter or underscore,
  and is a valid identifier; when there is none, the identifier is empty. Nothing is
  said of the case in which the first of them is a digit (a digit that stood after
  index 0): the counterexample shows such a name, and a name with an empty identifier.
\<close>

theorem identifier_characters:
  assumes "makeVarName U name [] = Inr ident"
  shows "list_all (identRune U) (runes ident)
         \<and> (\<forall>c cs. candidateRunes U name = c # cs \<and> \<not> digitRune U c
               \<longrightarrow> runes ident = c # cs \<and> letterRune U c \<and> validIdentifier U ident)
         \<and> (candidateRunes U name = [] \<longrightarrow> ident = [])"
proof -
  from assms have i: "ident = filterInvalidChars U (toCamelCase U name)"
    by (simp add: makeVarName_eq split: if_splits)
  have r: "runes ident = candidateRunes U name"
    unfolding i sanitized_runes by (rule keptRunes_candidates)
  have e: "ident = encodeRunes (candidateRunes U name)"
    unfolding i filterInvalidChars_kept keptRunes_candidates ..
  have a: "list_all (identRune U) (candidateRunes U name)"
    by (simp add: candidateRunes_def list_all_iff)
  have b: "\<forall>c cs. candidateRunes U name = c # cs \<and> \<not> digitRune U c
               \<longrightarrow> runes ident = c # cs \<and> letterRune U c \<and> validIdentifier U ident"
  proof (intro allI impI)
    fix c cs
    assume h: "candidateRunes U name = c # cs \<and> \<not> digitRune U c"
    with a have ic: "identRune U c" and ics: "list_all (identRune U) cs" by simp_all
    from identRune_cases[OF ic] h have l: "letterRune U c" by simp
    show "runes ident = c # cs \<and> letterRune U c \<and> validIdentifier U ident"
      using h l ics unfolding validIdentifier_def r by simp
  qed
  have c: "candidateRunes U name = [] \<longrightarrow> ident = []"
    unfolding e by (simp add: encodeRunes_def)
  show ?thesis using a b c unfolding r by blast
qed

theorem identifier_characters_witness:
  "list_all (identRune latin1_tables) (runes ''ab'')
   \<and> runes ''ab'' = [0x61, 0x62] \<and> letterRune latin1_tables 0x61
   \<and> validIdentifier latin1_tables ''ab''
   \<and> runes ''Ab9'' = [0x41, 0x62, 0x39] \<and> validIdentifier latin1_tables ''Ab9''
   \<and> makeVarName latin1_tables ''-'' [] = Inr []"
proof -
  have h1: "makeVarName latin1_tables ''1ab'' [] = Inr ''ab''" by code_simp
  have c1: "candidateRunes latin1_tables ''1ab'' = 0x61 # [0x62]
            \<and> \<not> digitRune latin1_tables 0x61"
    by code_simp
  have h2: "makeVarName latin1_tables ''ab.9'' [] = Inr ''Ab9''" by code_simp
  have c2: "candidateRunes latin1_tables ''ab.9'' = 0x41 # [0x62, 0x39]
            \<and> \<not> digitRune latin1_tables 0x41"
    by code_simp
  have h3: "makeVarName latin1_tables ''-'' [] = Inr []" by code_simp
  have c3: "candidateRunes latin1_tables ''-'' = []" by code_simp
  from identifier_characters[OF h1] c1
  have a: "list_all (identRune latin1_tables) (runes ''ab'')
           \<and> runes ''ab'' = [0x61, 0x62] \<and> letterRune latin1_tables 0x61
           \<and> validIdentifier latin1_tables ''ab''" by blast
  from identifier_characters[OF h2] c2
  have b: "runes ''Ab9'' = [0x41, 0x62, 0x39] \<and> validIdentifier latin1_tables ''Ab9''" by blast
  from identifier_characters[OF h3] c3 h3
  have c: "makeVarName latin1_tables ''-'' [] = Inr []" by blast
  show ?thesis using a b c by blast
qed

theorem identifier_characters_counterexample:
  "makeVarName latin1_tables ''12'' [] = Inr ''2'' \<and> \<not> validIdentifier latin1_tables ''2''
   \<and> makeVarName latin1_tables ''-'' [] = Inr [] \<and> \<not> validIdentifier latin1_tables []"
  by code_simp

subsection \<open>Names that are identifiers already\<close>

text \<open>
  Claim C4, as amended. For every filename base that is already a valid identifier
  with no separator characters (the underscore is a separator), the sanitizer returns
  the name with its first rune in title case and the rest unchanged, after the
  optional prefix, and rejects it exactly when that final name is a reserved keyword;
  this needs the title case of the first rune to be a letter, which holds for every
  ASCII letter. The name is not returned unchanged: \<open>foo\<close> becomes \<open>Foo\<close>.
\<close>

theorem valid_name_title_cased:
  assumes "validIdentifier U name" and "noSeparators name" and "titleIsLetter U name"
  shows "makeVarName U name pfx =
           (if pfx @ titleCased U name \<in> set keywords_list
            then Inl (ErrorString ''reserved keyword'')
            else Inr (pfx @ titleCased U name))"
  unfolding makeVarName_eq sanitize_valid_name[OF assms] by simp

theorem valid_name_title_cased_witness:
  "makeVarName latin1_tables ''foo'' ''gen'' = Inr ''genFoo''"
proof -
  have a: "validIdentifier latin1_tables ''foo''" by code_simp
  have b: "noSeparators ''foo''" by code_simp
  have c: "titleIsLetter latin1_tables ''foo''" by code_simp
  have t: "titleCased latin1_tables ''foo'' = ''Foo''" by code_simp
  have k: "''genFoo'' \<notin> set keywords_list" by (simp add: keywords_list_def)
  from valid_name_title_cased[OF a b c, of "''gen''"] show ?thesis
    unfolding t using k by simp
qed

theorem valid_name_unchanged_counterexample:
  "validIdentifier latin1_tables ''foo'' \<and> \<not> isReservedKeyword ''foo'' \<and> noSeparators ''foo''
   \<and> makeVarName latin1_tables ''foo'' [] \<noteq> Inr ([] @ ''foo'')"
  by code_simp

subsection \<open>Reserved keywords\<close>

text \<open>
  Claim C5. \<open>makeVarName\<close> returns an error, the error \<open>reserved keyword\<close>, if and
  only if the final name (camel-cased, filtered, prefixed) is one of the 25 keywords of
  the list; in particular a name that sanitizes to \<open>map\<close> with an empty prefix is
  rejected, and \<open>ProcessFiles\<close> then returns that error without writing an entry.
\<close>

theorem reserved_keyword_rejected:
  "makeVarName U name pfx =
     (if pfx @ filterInvalidChars U (toCamelCase U name) \<in> set keywords_list
      then Inl (ErrorString ''reserved keyword'')
      else Inr (pfx @ filterInvalidChars U (toCamelCase U name)))
   \<and> length keywords_list = 25 \<and> distinct keywords_list
   \<and> (filterInvalidChars U (toCamelCase U name) = ''map''
        \<longrightarrow> makeVarName U name [] = Inl (ErrorString ''reserved keyword''))
   \<and> (canStart W b pkg \<and> varNameFunc b fn (prefix b) = makeVarName U name []
          \<and> filterInvalidChars U (toCamelCase U name) = ''map''
        \<longrightarrow> ProcessFiles v U W b (fn # fns)
            = (\<lparr>outStream = preamble pkg (decl b), errStream = (if v then logLine fn else [])\<rparr>,
               Some (ErrorString ''reserved keyword'')))"
proof (intro conjI impI)
  show "makeVarName U name pfx =
     (if pfx @ filterInvalidChars U (toCamelCase U name) \<in> set keywords_list
      then Inl (ErrorString ''reserved keyword'')
      else Inr (pfx @ filterInvalidChars U (toCamelCase U name)))"
    by (rule makeVarName_eq)
  show "length keywords_list = 25" by (simp add: keywords_list_def)
  show "distinct keywords_list" by (simp add: keywords_list_def)
next
  assume "filterInvalidChars U (toCamelCase U name) = ''map''"
  then show "makeVarName U name [] = Inl (ErrorString ''reserved keyword'')"
    by (simp add: makeVarName_eq keywords_list_def)
next
  assume a: "canStart W b pkg \<and> varNameFunc b fn (prefix b) = makeVarName U name []
          \<and> filterInvalidChars U (toCamelCase U name) = ''map''"
  then have m: "varNameFunc b fn (prefix b) = Inl (ErrorString ''reserved keyword'')"
    by (simp add: makeVarName_eq keywords_list_def)
  then have f: "fileEntry U W b fn = ([], Some (ErrorString ''reserved keyword''))"
    by (simp add: fileEntry_def)
  have p: "\<forall>f \<in> set []. snd (fileEntry U W b f) = None" by simp
  have e: "snd (fileEntry U W b fn) = Some (ErrorString ''reserved keyword'')" using f by simp
  from a have c: "canStart W b pkg" by simp
  from ProcessFiles_fail[OF c p e, of v fns]
  show "ProcessFiles v U W b (fn # fns)
            = (\<lparr>outStream = preamble pkg (decl b), errStream = (if v then logLine fn else [])\<rparr>,
               Some (ErrorString ''reserved keyword''))"
    by (simp add: f)
qed

theorem reserved_keyword_rejected_witness:
  "makeVarName latin1_tables ''1map'' [] = Inl (ErrorString ''reserved keyword'')
   \<and> ProcessFiles False latin1_tables example_world example_bundler [''1map.txt'', ''foo.txt'']
       = (\<lparr>outStream = preamble ''main'' ''var'', errStream = []\<rparr>,
          Some (ErrorString ''reserved keyword''))"
proof -
  have s: "filterInvalidChars latin1_tables (toCamelCase latin1_tables ''1map'') = ''map''"
    by code_simp
  have n: "varNameFunc example_bundler ''1map.txt'' (prefix example_bundler)
             = makeVarName latin1_tables ''1map'' []"
    by code_simp
  from reserved_keyword_rejected[where U = latin1_tables and name = "''1map''" and pfx = "[]"
      and W = example_world and b = example_bundler and pkg = "''main''" and fn = "''1map.txt''"
      and v = False and fns = "[''foo.txt'']"]
    s n example_bundler_canStart
  have "makeVarName latin1_tables ''1map'' [] = Inl (ErrorString ''reserved keyword'')
   \<and> ProcessFiles False latin1_tables example_world example_bundler [''1map.txt'', ''foo.txt'']
       = (\<lparr>outStream = preamble ''main'' (decl example_bundler),
            errStream = (if False then logLine ''1map.txt'' else [])\<rparr>,
          Some (ErrorString ''reserved keyword''))"
    by blast
  then show ?thesis by (simp add: example_decl)
qed

section \<open>The escaper read back\<close>

lemma hexval_lowerhex:
  assumes "0 \<le> n" and "n < 16"
  shows "hexval (lowerhex n) = Some n"
proof -
  have all: "list_all (\<lambda>k. hexval (lowerhex (int k)) = Some (int k)) [0..<16]"
    by code_simp
  have "nat n \<in> set [0..<16]" using assms by simp
  with all have "hexval (lowerhex (int (nat n))) = Some (int (nat n))"
    unfolding list_all_iff by blast
  then show ?thesis using assms by simp
qed

lemma split16:
  fixes r :: int
  obtains q d where "r = 16 * q + d" "0 \<le> d" "d < 16" "r div 16 = q" "r mod 16 = d"
proof -
  have "r = 16 * (r div 16) + r mod 16" by simp
  moreover have "0 \<le> r mod 16" "r mod 16 < 16" by simp_all
  ultimately show thesis using that by blast
qed

lemma digits2:
  fixes n :: int
  assumes "0 \<le> n" and "n < 256"
  shows "digitsValue hexval 16 0 [lowerhex (n div 16), lowerhex (n mod 16)] = Some n"
proof -
  obtain q d where qd: "n = 16 * q + d" "0 \<le> d" "d < 16" "n div 16 = q" "n mod 16 = d"
    by (rule split16)
  have q: "0 \<le> q" "q < 16" using assms qd(1-3) by linarith+
  show ?thesis
    unfolding qd(4,5)
    by (simp add: hexval_lowerhex[OF q] hexval_lowerhex[OF qd(2,3)] qd(1))
qed

lemma digits4:
  fixes r :: int
  assumes "0 \<le> r" and "r < 65536"
  shows "digitsValue hexval 16 0
           [lowerhex (r div 4096 mod 16), lowerhex (r div 256 mod 16),
            lowerhex (r div 16 mod 16), lowerhex (r mod 16)] = Some r"
proof -
  obtain q1 d0 where a: "r = 16 * q1 + d0" "0 \<le> d0" "d0 < 16" "r div 16 = q1" "r mod 16 = d0"
    by (rule split16)
  obtain q2 d1 where b: "q1 = 16 * q2 + d1" "0 \<le> d1" "d1 < 16" "q1 div 16 = q2" "q1 mod 16 = d1"
    by (rule split16)
  obtain q3 d2 where c: "q2 = 16 * q3 + d2" "0 \<le> d2" "d2 < 16" "q2 div 16 = q3" "q2 mod 16 = d2"
    by (rule split16)
  have q3: "0 \<le> q3" "q3 < 16" using assms a(1-3) b(1-3) c(1-3) by linarith+
  have "r div 256 = (r div 16) div 16" by (simp add: div_mult2_eq)
  then have e2: "r div 256 = q2" by (simp only: a(4) b(4))
  have "r div 4096 = (r div 256) div 16" by (simp add: div_mult2_eq)
  then have e3: "r div 4096 = q3" by (simp only: e2 c(4))
  have m3: "q3 mod 16 = q3" using q3 by simp
  have rf: "r = 16 * (16 * (16 * q3 + d2) + d1) + d0" using a(1) b(1) c(1) by simp
  have v: "hexval (lowerhex q3) = Some q3" "hexval (lowerhex d2) = Some d2"
    "hexval (lowerhex d1) = Some d1" "hexval (lowerhex d0) = Some d0"
    using hexval_lowerhex q3 a(2,3) b(2,3) c(2,3) by simp_all
  have "digitsValue hexval 16 0 [lowerhex q3, lowerhex d2, lowerhex d1, lowerhex d0] = Some r"
    by (simp add: v rf)
  then show ?thesis
    by (simp only: e3 m3 e2 c(5) a(4) b(5) a(5))
qed


lemma digits8:
  fixes r :: int
  assumes "0 \<le> r" and "r < 4294967296"
  shows "digitsValue hexval 16 0
           [lowerhex (r div 268435456 mod 16), lowerhex (r div 16777216 mod 16),
            lowerhex (r div 1048576 mod 16), lowerhex (r div 65536 mod 16),
            lowerhex (r div 4096 mod 16), lowerhex (r div 256 mod 16),
            lowerhex (r div 16 mod 16), lowerhex (r mod 16)] = Some r"
proof -
  obtain q1 d0 where a: "r = 16 * q1 + d0" "0 \<le> d0" "d0 < 16" "r div 16 = q1" "r mod 16 = d0"
    by (rule split16)
  obtain q2 d1 where b: "q1 = 16 * q2 + d1" "0 \<le> d1" "d1 < 16" "q1 div 16 = q2" "q1 mod 16 = d1"
    by (rule split16)
  obtain q3 d2 where c: "q2 = 16 * q3 + d2" "0 \<le> d2" "d2 < 16" "q2 div 16 = q3" "q2 mod 16 = d2"
    by (rule split16)
  obtain q4 d3 where d: "q3 = 16 * q4 + d3" "0 \<le> d3" "d3 < 16" "q3 div 16 = q4" "q3 mod 16 = d3"
    by (rule split16)
  obtain q5 d4 where e: "q4 = 16 * q5 + d4" "0 \<le> d4" "d4 < 16" "q4 div 16 = q5" "q4 mod 16 = d4"
    by (rule split16)
  obtain q6 d5 where f: "q5 = 16 * q6 + d5" "0 \<le> d5" "d5 < 16" "q5 div 16 = q6" "q5 mod 16 = d5"
    by (rule split16)
  obtain q7 d6 where g: "q6 = 16 * q7 + d6" "0 \<le> d6" "d6 < 16" "q6 div 16 = q7" "q6 mod 16 = d6"
    by (rule split16)
  have q7: "0 \<le> q7" "q7 < 16"
    using assms a(1-3) b(1-3) c(1-3) d(1-3) e(1-3) f(1-3) g(1-3) by linarith+
  have "r div 256 = (r div 16) div 16" by (simp add: div_mult2_eq)
  then have e2: "r div 256 = q2" by (simp only: a(4) b(4))
  have "r div 4096 = (r div 256) div 16" by (simp add: div_mult2_eq)
  then have e3: "r div 4096 = q3" by (simp only: e2 c(4))
  have "r div 65536 = (r div 4096) div 16" by (simp add: div_mult2_eq)
  then have e4: "r div 65536 = q4" by (simp only: e3 d(4))
  have "r div 1048576 = (r div 65536) div 16" by (simp add: div_mult2_eq)
  then have e5: "r div 1048576 = q5" by (simp only: e4 e(4))
  have "r div 16777216 = (r div 1048576) div 16" by (simp add: div_mult2_eq)
  then have e6: "r div 16777216 = q6" by (simp only: e5 f(4))
  have "r div 268435456 = (r div 16777216) div 16" by (simp add: div_mult2_eq)
  then have e7: "r div 268435456 = q7" by (simp only: e6 g(4))
  have m7: "q7 mod 16 = q7" using q7 by simp
  have rf: "r = 16 * (16 * (16 * (16 * (16 * (16 * (16 * q7 + d6) + d5) + d4) + d3) + d2) + d1) + d0"
    using a(1) b(1) c(1) d(1) e(1) f(1) g(1) by simp
  have v: "hexval (lowerhex q7) = Some q7" "hexval (lowerhex d6) = Some d6"
    "hexval (lowerhex d5) = Some d5" "hexval (lowerhex d4) = Some d4"
    "hexval (lowerhex d3) = Some d3" "hexval (lowerhex d2) = Some d2"
    "hexval (lowerhex d1) = Some d1" "hexval (lowerhex d0) = Some d0"
    using hexval_lowerhex q7 a(2,3) b(2,3) c(2,3) d(2,3) e(2,3) f(2,3) g(2,3) by simp_all
  have "digitsValue hexval 16 0
      [lowerhex q7, lowerhex d6, lowerhex d5, lowerhex d4, lowerhex d3, lowerhex d2,
       lowerhex d1, lowerhex d0] = Some r"
    by (simp add: v rf)
  then show ?thesis
    by (simp only: e7 m7 e6 g(5) e5 f(5) e4 e(5) e3 d(5) e2 c(5) a(4) b(5) a(5))
qed

lemma unquoteUnit_hex2:
  assumes "0 \<le> n" and "n < 256"
  shows "unquoteUnit ([bslash, CHR ''x'', lowerhex (n div 16), lowerhex (n mod 16)] @ t)
           = Some ([chr n], t)"
  by (simp add: unquoteUnit_def unquoteEscape_def digits2[OF assms] del: digitsValue.simps)

lemma unquoteUnit_u4:
  assumes "0 \<le> r" and "r < 65536" and "ValidRune r"
  shows "unquoteUnit ([bslash, CHR ''u'', lowerhex (r div 4096 mod 16), lowerhex (r div 256 mod 16),
            lowerhex (r div 16 mod 16), lowerhex (r mod 16)] @ t)
           = Some (EncodeRune r, t)"
  by (simp add: unquoteUnit_def unquoteEscape_def digits4[OF assms(1,2)] assms(3) del: digitsValue.simps)

lemma unquoteUnit_U8:
  assumes "0 \<le> r" and "r < 4294967296" and "ValidRune r"
  shows "unquoteUnit ([bslash, CHR ''U'', lowerhex (r div 268435456 mod 16),
            lowerhex (r div 16777216 mod 16), lowerhex (r div 1048576 mod 16),
            lowerhex (r div 65536 mod 16), lowerhex (r div 4096 mod 16),
            lowerhex (r div 256 mod 16), lowerhex (r div 16 mod 16), lowerhex (r mod 16)] @ t)
           = Some (EncodeRune r, t)"
  by (simp add: unquoteUnit_def unquoteEscape_def digits8[OF assms(1,2)] assms(3) del: digitsValue.simps)

lemma unquoteUnit_raw:
  assumes "DecodeRune (c # cs) = (r, w)" and "\<not> (r = RuneError \<and> w = 1)" and "r \<noteq> 0"
    and "c \<noteq> bslash" and "c \<noteq> dquote" and "c \<noteq> newline"
  shows "unquoteUnit (take w (c # cs) @ t) = Some (take w (c # cs), t)"
proof -
  from DecodeRune_width[OF assms(1)] have w: "1 \<le> w" "w \<le> length (c # cs)" by simp_all
  then obtain u where tk: "take w (c # cs) = c # u" by (cases w) auto
  have len: "length (take w (c # cs)) = w" using w by simp
  have d: "DecodeRune (c # u @ t) = (r, w)"
    using DecodeRune_prefix[OF assms(1,2), of t] tk by simp
  have "take w (c # u @ t) = c # u \<and> drop w (c # u @ t) = t"
    using len tk by (metis append_Cons append_eq_conv_conj)
  then show ?thesis
    unfolding tk using assms(2-6) d by (simp add: unquoteUnit_def)
qed


lemma IsPrint_ascii: "0 \<le> n \<Longrightarrow> n < 0x80 \<Longrightarrow> strconv_IsPrint U n = (0x20 \<le> n \<and> n \<le> 0x7E)"
  by (auto simp: strconv_IsPrint_def)

lemma aer_backslashed:
  "r = byte dquote \<or> r = byte bslash \<Longrightarrow> appendEscapedRune U r = [bslash, chr r]"
  by (simp add: appendEscapedRune_def)

lemma aer_print:
  "r \<noteq> byte dquote \<Longrightarrow> r \<noteq> byte bslash \<Longrightarrow> strconv_IsPrint U r
     \<Longrightarrow> appendEscapedRune U r = EncodeRune r"
  by (simp add: appendEscapedRune_def)

lemma aer_control:
  assumes "\<not> strconv_IsPrint U r" and "0 \<le> r" and "r < 0x20 \<or> r = 0x7F"
  shows "appendEscapedRune U r =
           (if r = 0x07 then [bslash, CHR ''a'']
            else if r = 0x08 then [bslash, CHR ''b'']
            else if r = 0x0C then [bslash, CHR ''f'']
            else if r = 0x0A then [bslash, CHR ''n'']
            else if r = 0x0D then [bslash, CHR ''r'']
            else if r = 0x09 then [bslash, CHR ''t'']
            else if r = 0x0B then [bslash, CHR ''v'']
            else [bslash, CHR ''x'', lowerhex (r div 16), lowerhex (r mod 16)])"
proof -
  have b: "byte (chr r) = r" using assms(2,3) by (intro byte_chr_small) linarith+
  have q: "r \<noteq> byte dquote" "r \<noteq> byte bslash" using assms(3) by auto
  show ?thesis
    unfolding appendEscapedRune_def b using assms(1,3) q by (simp only: if_False if_True simp_thms)
qed

lemma aer_u4:
  assumes "\<not> strconv_IsPrint U r" and "0x80 \<le> r" and "r < 0x10000" and "ValidRune r"
  shows "appendEscapedRune U r =
           [bslash, CHR ''u'', lowerhex (r div 4096 mod 16), lowerhex (r div 256 mod 16),
            lowerhex (r div 16 mod 16), lowerhex (r mod 16)]"
proof -
  have n: "r \<noteq> byte dquote" "r \<noteq> byte bslash" "r \<noteq> 0x07" "r \<noteq> 0x08" "r \<noteq> 0x0C"
    "r \<noteq> 0x0A" "r \<noteq> 0x0D" "r \<noteq> 0x09" "r \<noteq> 0x0B" "\<not> (r < 0x20 \<or> r = 0x7F)"
    using assms(2) by auto
  show ?thesis
    unfolding appendEscapedRune_def Let_def
    by (simp only: n assms(1,3,4) if_False if_True not_True_eq_False not_False_eq_True simp_thms)
qed

lemma aer_U8:
  assumes "\<not> strconv_IsPrint U r" and "0x10000 \<le> r" and "ValidRune r"
  shows "appendEscapedRune U r =
           [bslash, CHR ''U'', lowerhex (r div 268435456 mod 16),
            lowerhex (r div 16777216 mod 16), lowerhex (r div 1048576 mod 16),
            lowerhex (r div 65536 mod 16), lowerhex (r div 4096 mod 16),
            lowerhex (r div 256 mod 16), lowerhex (r div 16 mod 16), lowerhex (r mod 16)]"
proof -
  have n: "r \<noteq> byte dquote" "r \<noteq> byte bslash" "r \<noteq> 0x07" "r \<noteq> 0x08" "r \<noteq> 0x0C"
    "r \<noteq> 0x0A" "r \<noteq> 0x0D" "r \<noteq> 0x09" "r \<noteq> 0x0B" "\<not> (r < 0x20 \<or> r = 0x7F)"
    "\<not> r < 0x10000"
    using assms(2) by auto
  show ?thesis
    unfolding appendEscapedRune_def Let_def
    by (simp only: n assms(1,3) if_False if_True not_True_eq_False not_False_eq_True simp_thms)
qed

lemma unquoteUnit_bslash: "unquoteUnit (bslash # rest) = unquoteEscape rest"
  by (simp add: unquoteUnit_def)

lemma unquoteEscape_simple:
  "unquoteEscape (CHR ''a'' # t) = Some ([chr 0x07], t)"
  "unquoteEscape (CHR ''b'' # t) = Some ([chr 0x08], t)"
  "unquoteEscape (CHR ''f'' # t) = Some ([chr 0x0C], t)"
  "unquoteEscape (CHR ''n'' # t) = Some ([chr 0x0A], t)"
  "unquoteEscape (CHR ''r'' # t) = Some ([chr 0x0D], t)"
  "unquoteEscape (CHR ''t'' # t) = Some ([chr 0x09], t)"
  "unquoteEscape (CHR ''v'' # t) = Some ([chr 0x0B], t)"
  "unquoteEscape (bslash # t) = Some ([bslash], t)"
  "unquoteEscape (dquote # t) = Some ([dquote], t)"
  by (simp_all add: unquoteEscape_def)

lemma DecodeRune_multibyte:
  assumes "DecodeRune (c # cs) = (r, w)" and "0x80 \<le> byte c" and "\<not> (r = RuneError \<and> w = 1)"
  shows "0x80 \<le> r \<and> r \<le> 0x10FFFF \<and> 2 \<le> w"
  using assms(1)
proof (cases rule: DecodeRune_cases)
  case ascii
  with assms(2) show ?thesis by simp
next
  case bad
  with assms(3) show ?thesis by simp
next
  case (two c1 t)
  from two_arith(1,2)[OF two(2-6)] two(7) show ?thesis by simp
next
  case (three c1 c2 t)
  from three_arith(1,2)[OF three(2-8)] three(9) show ?thesis by simp
next
  case (four c1 c2 c3 t)
  from four_arith(1,2)[OF four(2-10)] four(11) show ?thesis by simp
qed

lemma quoteStep_high_bad:
  assumes "0x80 \<le> byte c" and "DecodeRune (c # cs) = (RuneError, 1)"
  shows "quoteStep U (c # cs)
           = ([bslash, CHR ''x'', lowerhex (byte c div 16), lowerhex (byte c mod 16)], 1)"
  using assms by (simp add: quoteStep_def RuneSelf_def)

lemma quoteStep_high_good:
  assumes "0x80 \<le> byte c" and "DecodeRune (c # cs) = (r, w)" and "\<not> (r = RuneError \<and> w = 1)"
  shows "quoteStep U (c # cs) = (appendEscapedRune U r, w)"
  using assms by (auto simp: quoteStep_def RuneSelf_def)

lemma quoteStep_ascii:
  assumes "byte c < 0x80"
  shows "quoteStep U (c # cs) = (appendEscapedRune U (byte c), 1)"
  using assms by (simp add: quoteStep_def RuneSelf_def RuneError_def)

lemma unquoteUnit_ascii_escape:
  assumes "byte c < 0x80"
  shows "unquoteUnit (appendEscapedRune U (byte c) @ t) = Some ([c], t)"
proof -
  let ?n = "byte c"
  have n0: "0 \<le> ?n" by simp
  have cn: "chr ?n = c" by simp
  consider (q) "?n = byte dquote \<or> ?n = byte bslash"
    | (p) "?n \<noteq> byte dquote" "?n \<noteq> byte bslash" "0x20 \<le> ?n" "?n \<le> 0x7E"
    | (ctl) "?n < 0x20 \<or> ?n = 0x7F"
    using assms by linarith
  then show ?thesis
  proof cases
    case q
    then have "c = dquote \<or> c = bslash" by (simp only: of_char_eq_iff)
    then show ?thesis
    proof
      assume "c = dquote"
      then show ?thesis
        unfolding aer_backslashed[OF q] cn by (simp add: unquoteUnit_bslash unquoteEscape_simple)
    next
      assume "c = bslash"
      then show ?thesis
        unfolding aer_backslashed[OF q] cn by (simp add: unquoteUnit_bslash unquoteEscape_simple)
    qed
  next
    case p
    have pr: "strconv_IsPrint U ?n" using IsPrint_ascii[OF n0 assms] p by simp
    have e: "EncodeRune ?n = [c]" using assms by (simp add: EncodeRune_def)
    have ne: "c \<noteq> bslash" "c \<noteq> dquote" "c \<noteq> newline"
      using p by auto
    have d: "DecodeRune (c # t) = (?n, 1)" by (rule DecodeRune_ascii[OF assms])
    have nz: "?n \<noteq> 0" "?n \<noteq> RuneError" using p(3,4) by (auto simp: RuneError_def)
    show ?thesis
      unfolding aer_print[OF p(1,2) pr] e using ne d nz by (simp add: unquoteUnit_def)
  next
    case ctl
    have np: "\<not> strconv_IsPrint U ?n" using IsPrint_ascii[OF n0 assms] ctl by auto
    have lt: "?n < 256" by simp
    from ctl have "?n = 0x07 \<or> ?n = 0x08 \<or> ?n = 0x0C \<or> ?n = 0x0A \<or> ?n = 0x0D \<or> ?n = 0x09
        \<or> ?n = 0x0B \<or> (?n \<noteq> 0x07 \<and> ?n \<noteq> 0x08 \<and> ?n \<noteq> 0x0C \<and> ?n \<noteq> 0x0A \<and> ?n \<noteq> 0x0D
              \<and> ?n \<noteq> 0x09 \<and> ?n \<noteq> 0x0B)"
      by blast
    then show ?thesis
    proof (elim disjE)
      assume a: "?n \<noteq> 0x07 \<and> ?n \<noteq> 0x08 \<and> ?n \<noteq> 0x0C \<and> ?n \<noteq> 0x0A \<and> ?n \<noteq> 0x0D
              \<and> ?n \<noteq> 0x09 \<and> ?n \<noteq> 0x0B"
      have "appendEscapedRune U ?n
              = [bslash, CHR ''x'', lowerhex (?n div 16), lowerhex (?n mod 16)]"
        unfolding aer_control[OF np n0 ctl] using a by (simp only: if_False simp_thms)
      then show ?thesis using unquoteUnit_hex2[OF n0 lt, of t] cn by simp
    next
      assume a: "?n = 0x07"
      from cn[unfolded a] have "c = chr 0x07" by simp
      then show ?thesis
        unfolding aer_control[OF np n0 ctl] using a
        by (simp add: unquoteUnit_bslash unquoteEscape_simple)
    next
      assume a: "?n = 0x08"
      from cn[unfolded a] have "c = chr 0x08" by simp
      then show ?thesis
        unfolding aer_control[OF np n0 ctl] using a
        by (simp add: unquoteUnit_bslash unquoteEscape_simple)
    next
      assume a: "?n = 0x0C"
      from cn[unfolded a] have "c = chr 0x0C" by simp
      then show ?thesis
        unfolding aer_control[OF np n0 ctl] using a
        by (simp add: unquoteUnit_bslash unquoteEscape_simple)
    next
      assume a: "?n = 0x0A"
      from cn[unfolded a] have "c = chr 0x0A" by simp
      then show ?thesis
        unfolding aer_control[OF np n0 ctl] using a
        by (simp add: unquoteUnit_bslash unquoteEscape_simple)
    next
      assume a: "?n = 0x0D"
      from cn[unfolded a] have "c = chr 0x0D" by simp
      then show ?thesis
        unfolding aer_control[OF np n0 ctl] using a
        by (simp add: unquoteUnit_bslash unquoteEscape_simple)
    next
      assume a: "?n = 0x09"
      from cn[unfolded a] have "c = chr 0x09" by simp
      then show ?thesis
        unfolding aer_control[OF np n0 ctl] using a
        by (simp add: unquoteUnit_bslash unquoteEscape_simple)
    next
      assume a: "?n = 0x0B"
      from cn[unfolded a] have "c = chr 0x0B" by simp
      then show ?thesis
        unfolding aer_control[OF np n0 ctl] using a
        by (simp add: unquoteUnit_bslash unquoteEscape_simple)
    qed
  qed
qed

lemma unquoteUnit_multibyte_escape:
  assumes "0x80 \<le> byte c" and "DecodeRune (c # cs) = (r, w)" and "\<not> (r = RuneError \<and> w = 1)"
  shows "unquoteUnit (appendEscapedRune U r @ t) = Some (take w (c # cs), t)"
proof -
  from DecodeRune_multibyte[OF assms(2,1,3)] have r: "0x80 \<le> r" "r \<le> 0x10FFFF" by simp_all
  have v: "ValidRune r" by (rule DecodeRune_ValidRune[OF assms(2)])
  have enc: "EncodeRune r = take w (c # cs)" by (rule EncodeRune_DecodeRune[OF assms(2,3)])
  have q: "r \<noteq> byte dquote" "r \<noteq> byte bslash" using r(1) by auto
  have c: "c \<noteq> bslash" "c \<noteq> dquote" "c \<noteq> newline" using assms(1) by auto
  have nz: "r \<noteq> 0" using r(1) by simp
  show ?thesis
  proof (cases "strconv_IsPrint U r")
    case True
    show ?thesis
      unfolding aer_print[OF q True] enc
      by (rule unquoteUnit_raw[OF assms(2,3) nz c])
  next
    case False
    show ?thesis
    proof (cases "r < 0x10000")
      case True
      have r0: "0 \<le> r" using r(1) by simp
      show ?thesis
        unfolding aer_u4[OF False r(1) True v] enc[symmetric]
        by (rule unquoteUnit_u4[OF r0 True v])
    next
      case big: False
      have r0: "0 \<le> r" using r(1) by simp
      have r1: "0x10000 \<le> r" using big by simp
      have r2: "r < 4294967296" using r(2) by simp
      show ?thesis
        unfolding aer_U8[OF False r1 v] enc[symmetric]
        by (rule unquoteUnit_U8[OF r0 r2 v])
    qed
  qed
qed

lemma quoteStep_unquote:
  assumes "quoteStep U (c # cs) = (e, w)"
  shows "unquoteUnit (e @ t) = Some (take w (c # cs), t)"
proof (cases "byte c < 0x80")
  case True
  from assms quoteStep_ascii[OF True, of U cs]
  have e: "e = appendEscapedRune U (byte c)" and w: "w = 1" by simp_all
  show ?thesis unfolding e w using unquoteUnit_ascii_escape[OF True, of U t] by simp
next
  case False
  then have hi: "0x80 \<le> byte c" by simp
  obtain r v where d: "DecodeRune (c # cs) = (r, v)" by (cases "DecodeRune (c # cs)")
  show ?thesis
  proof (cases "r = RuneError \<and> v = 1")
    case True
    with d have d': "DecodeRune (c # cs) = (RuneError, 1)" by simp
    from assms quoteStep_high_bad[OF hi d', of U]
    have e: "e = [bslash, CHR ''x'', lowerhex (byte c div 16), lowerhex (byte c mod 16)]"
      and w: "w = 1" by simp_all
    have b: "0 \<le> byte c" "byte c < 256" by simp_all
    show ?thesis unfolding e w using unquoteUnit_hex2[OF b, of t] by simp
  next
    case False
    from assms quoteStep_high_good[OF hi d False, of U]
    have e: "e = appendEscapedRune U r" and w: "w = v" by simp_all
    show ?thesis unfolding e w by (rule unquoteUnit_multibyte_escape[OF hi d False])
  qed
qed

lemma quoteLoop_Nil [simp]: "quoteLoop U [] = []"
  by (simp add: quoteLoop.simps)

lemma quoteLoop_Cons:
  "quoteLoop U (c # cs)
     = (case quoteStep U (c # cs) of (e, w) \<Rightarrow> e @ quoteLoop U (drop w (c # cs)))"
  by (subst quoteLoop.simps) simp

lemma unquoteBody_Nil [simp]: "unquoteBody [] = Some []"
  by (simp add: unquoteBody.simps)

lemma unquoteBody_step:
  assumes "unquoteUnit s = Some (bs, rest)"
  shows "unquoteBody s = (case unquoteBody rest of None \<Rightarrow> None | Some t \<Rightarrow> Some (bs @ t))"
proof -
  from assms have "s \<noteq> []" by (auto simp: unquoteUnit_def)
  then show ?thesis using assms by (subst unquoteBody.simps) simp
qed

lemma unquoteBody_quoteLoop:
  "unquoteBody (quoteLoop U s @ t)
     = (case unquoteBody t of None \<Rightarrow> None | Some x \<Rightarrow> Some (s @ x))"
proof (induction U s rule: quoteLoop.induct)
  case (1 U s)
  show ?case
  proof (cases s)
    case Nil
    then show ?thesis by (simp split: option.splits)
  next
    case (Cons c cs)
    obtain e w where q: "quoteStep U (c # cs) = (e, w)" by (cases "quoteStep U (c # cs)")
    have ne: "s \<noteq> []" using Cons by simp
    have u: "unquoteUnit (e @ quoteLoop U (drop w s) @ t)
               = Some (take w s, quoteLoop U (drop w s) @ t)"
      using quoteStep_unquote[OF q] Cons by simp
    have ih: "unquoteBody (quoteLoop U (drop w s) @ t)
                = (case unquoteBody t of None \<Rightarrow> None | Some x \<Rightarrow> Some (drop w s @ x))"
      using "1.IH"[OF ne, of e w] q Cons by simp
    have "quoteLoop U s @ t = e @ quoteLoop U (drop w s) @ t"
      unfolding Cons quoteLoop_Cons q by simp
    then have "unquoteBody (quoteLoop U s @ t)
                 = (case unquoteBody (quoteLoop U (drop w s) @ t) of
                      None \<Rightarrow> None | Some y \<Rightarrow> Some (take w s @ y))"
      using unquoteBody_step[OF u] by simp
    also have "\<dots> = (case unquoteBody t of None \<Rightarrow> None | Some x \<Rightarrow> Some (s @ x))"
      unfolding ih by (cases "unquoteBody t") (simp_all add: append_assoc[symmetric] del: append_assoc)
    finally show ?thesis .
  qed
qed

lemma unquoteBody_chunks:
  "unquoteBody (concat (map (quoteLoop U) cs)) = Some (concat cs)"
proof -
  have "\<And>t. unquoteBody (concat (map (quoteLoop U) cs) @ t)
          = (case unquoteBody t of None \<Rightarrow> None | Some x \<Rightarrow> Some (concat cs @ x))"
  proof (induction cs)
    case Nil
    show ?case by (simp split: option.splits)
  next
    case (Cons c cs)
    show ?case
      using unquoteBody_quoteLoop[of U c "concat (map (quoteLoop U) cs) @ t"] Cons.IH[of t]
      by (simp split: option.splits)
  qed
  from this[of "[]"] show ?thesis by simp
qed

lemma quoteLoopFile_chunks:
  "quoteLoopFile U (map (\<lambda>c. (c, None)) cs) out
     = (out @ concat (map (quoteLoop U) cs) @ [dquote], None)"
proof (induction cs arbitrary: out)
  case Nil
  show ?case by simp
next
  case (Cons c cs)
  show ?case
    using Cons.IH[of "out @ quoteLoop U c"]
    by (simp add: quoteLoopFile_Cons del: quoteLoopFile.simps)
qed

lemma unquote_quoted: "unquote ([dquote] @ body @ [dquote]) = unquoteBody body"
  by (simp add: unquote_def)

lemma concat_chunks: "0 < n \<Longrightarrow> concat (chunks n xs) = xs"
proof (induction n xs rule: chunks.induct)
  case (1 n xs)
  show ?case
  proof (cases "xs = []")
    case True
    then show ?thesis by (simp add: chunks.simps)
  next
    case False
    have "chunks n xs = take n xs # chunks n (drop n xs)"
      using False "1.prems" by (subst chunks.simps) simp
    then show ?thesis using "1.IH" False "1.prems" by simp
  qed
qed

subsection \<open>Round trip\<close>

text \<open>
  Claim C2. For every sequence of bytes, however the reads split it (in particular for
  a regular file read in buffers of \<open>BUFSIZE\<close> bytes), \<open>quoteFile\<close> returns no
  error and the literal it writes is accepted by Go's string-literal grammar and
  un-escapes to the original bytes.
\<close>

theorem quote_roundtrip:
  "(os_Open W fn = Inr (map (\<lambda>c. (c, None)) cs)
      \<longrightarrow> quoteFile U W out fn = (out @ fst (quoteFile U W [] fn), None)
          \<and> unquote (fst (quoteFile U W [] fn)) = Some (concat cs))
   \<and> (os_Open W fn = Inr (regular_file bs)
      \<longrightarrow> quoteFile U W out fn = (out @ fst (quoteFile U W [] fn), None)
          \<and> unquote (fst (quoteFile U W [] fn)) = Some bs)"
proof -
  have a: "os_Open W fn = Inr (map (\<lambda>c. (c, None)) cs)
      \<Longrightarrow> quoteFile U W out fn = (out @ fst (quoteFile U W [] fn), None)
          \<and> unquote (fst (quoteFile U W [] fn)) = Some (concat cs)" for cs out
  proof -
    assume o: "os_Open W fn = Inr (map (\<lambda>c. (c, None)) cs)"
    have q: "quoteFile U W acc fn = (acc @ [dquote] @ concat (map (quoteLoop U) cs) @ [dquote], None)"
      for acc
      using o by (simp add: quoteFile_def quoteLoopFile_chunks)
    have "unquote ([dquote] @ concat (map (quoteLoop U) cs) @ [dquote]) = Some (concat cs)"
      unfolding unquote_quoted by (rule unquoteBody_chunks)
    then show ?thesis using q[of out] q[of "[]"] by simp
  qed
  have b: "concat (chunks BUFSIZE bs) = bs" by (rule concat_chunks) (simp add: BUFSIZE_def)
  show ?thesis
    using a[of cs out] a[of "chunks BUFSIZE bs" out] b by (simp add: regular_file_def)
qed

theorem quote_roundtrip_witness:
  "unquote (fst (quoteFile latin1_tables example_world [] ''bin.dat''))
     = Some [CHR 0x00, dquote, bslash, newline, CHR 0xC3, CHR 0xA9, CHR 0xFF]"
proof -
  have o: "os_Open example_world ''bin.dat''
             = Inr (regular_file [CHR 0x00, dquote, bslash, newline, CHR 0xC3, CHR 0xA9, CHR 0xFF])"
    by (simp add: example_world_def)
  from quote_roundtrip[where W = example_world and fn = "''bin.dat''" and U = latin1_tables
      and bs = "[CHR 0x00, dquote, bslash, newline, CHR 0xC3, CHR 0xA9, CHR 0xFF]", THEN conjunct2] o
  show ?thesis by blast
qed


lemma cutsAt_0 [simp]: "cutsAt s 0 = False"
  by (simp add: cutsAt.simps)

lemma cutsAt_Nil [simp]: "cutsAt [] p = False"
  by (simp add: cutsAt.simps)

lemma cutsAt_step:
  assumes "a \<noteq> []" and "DecodeRune (a @ s) = (r, w)" and "\<not> cutsAt (a @ s) (length a)"
  shows "w \<le> length a \<and> \<not> cutsAt (drop w a @ s) (length (drop w a))"
proof -
  have "cutsAt (a @ s) (length a)
          = (if length a < w then True else cutsAt (drop w (a @ s)) (length a - w))"
    using assms(1,2) by (subst cutsAt.simps) simp
  with assms(3) have w: "w \<le> length a" and c: "\<not> cutsAt (drop w (a @ s)) (length a - w)"
    by (auto split: if_splits)
  from w c show ?thesis by simp
qed

lemma DecodeRune_truncate:
  assumes "a \<noteq> []" and "DecodeRune (a @ s) = (r, w)" and "w \<le> length a"
  shows "DecodeRune a = (r, w)"
proof -
  from assms(1) obtain c cs where a: "a = c # cs" by (cases a) auto
  show ?thesis
  proof (cases "r = RuneError \<and> w = 1")
    case False
    have "DecodeRune (take w (c # (cs @ s)) @ drop w a) = (r, w)"
      using DecodeRune_prefix[of c "cs @ s" r w "drop w a"] assms(2) a False by simp
    moreover have "take w (a @ s) = take w a" using assms(3) by simp
    then have "take w (c # (cs @ s)) @ drop w a = a" unfolding a by simp
    ultimately show ?thesis by simp
  next
    case True
    obtain r' w' where d: "DecodeRune (c # cs) = (r', w')" by (cases "DecodeRune (c # cs)")
    show ?thesis
    proof (cases "r' = RuneError \<and> w' = 1")
      case True
      with d a \<open>r = RuneError \<and> w = 1\<close> show ?thesis by simp
    next
      case False
      from DecodeRune_width[OF d] have w': "w' \<le> length (c # cs)" by simp
      have "DecodeRune (take w' (c # cs) @ (drop w' (c # cs) @ s)) = (r', w')"
        by (rule DecodeRune_prefix[OF d False])
      moreover have "take w' (c # cs) @ (drop w' (c # cs) @ s) = a @ s"
        unfolding a by (simp only: append_assoc[symmetric] append_take_drop_id)
      ultimately have "DecodeRune (a @ s) = (r', w')" by simp
      with assms(2) d a show ?thesis by simp
    qed
  qed
qed

lemma quoteStep_truncate:
  assumes "a \<noteq> []" and "DecodeRune (a @ s) = (r, w)" and "w \<le> length a"
  shows "quoteStep U (a @ s) = quoteStep U a \<and> snd (quoteStep U a) = w"
proof -
  from assms(1) obtain c cs where a: "a = c # cs" by (cases a) auto
  from DecodeRune_truncate[OF assms] have d: "DecodeRune a = (r, w)" .
  show ?thesis
  proof (cases "byte c < 0x80")
    case True
    from DecodeRune_ascii[OF True, of cs] d a have "w = 1" by simp
    then show ?thesis
      using quoteStep_ascii[OF True, of U cs] quoteStep_ascii[OF True, of U "cs @ s"] a by simp
  next
    case False
    then have hi: "RuneSelf \<le> byte c" by (simp add: RuneSelf_def)
    show ?thesis
      using hi d assms(2) unfolding a by (simp add: quoteStep_def Let_def split: if_splits)
  qed
qed

lemma quoteLoop_uncut_append:
  "\<not> cutsAt (a @ s) (length a) \<Longrightarrow> quoteLoop U (a @ s) = quoteLoop U a @ quoteLoop U s"
proof (induction "length a" arbitrary: a rule: less_induct)
  case less
  show ?case
  proof (cases a)
    case Nil
    then show ?thesis by simp
  next
    case (Cons c cs)
    then have ne: "a \<noteq> []" by simp
    obtain r w where d: "DecodeRune (a @ s) = (r, w)" by (cases "DecodeRune (a @ s)")
    from cutsAt_step[OF ne d less.prems]
    have w: "w \<le> length a" and c: "\<not> cutsAt (drop w a @ s) (length (drop w a))" by simp_all
    from DecodeRune_truncate[OF ne d w] have da: "DecodeRune a = (r, w)" .
    from DecodeRune_drop_shorter[OF ne da] have sh: "length (drop w a) < length a" .
    from quoteStep_truncate[OF ne d w, of U]
    have q: "quoteStep U (a @ s) = quoteStep U a" and qw: "snd (quoteStep U a) = w" by simp_all
    obtain e where qa: "quoteStep U a = (e, w)" using qw by (cases "quoteStep U a") simp
    have ih: "quoteLoop U (drop w a @ s) = quoteLoop U (drop w a) @ quoteLoop U s"
      by (rule less.hyps[OF sh c])
    have "quoteLoop U (a @ s) = e @ quoteLoop U (drop w (a @ s))"
      using q qa Cons by (simp add: quoteLoop_Cons)
    also have "drop w (a @ s) = drop w a @ s" using w by simp
    also have "e @ quoteLoop U (drop w a @ s) = (e @ quoteLoop U (drop w a)) @ quoteLoop U s"
      unfolding ih by simp
    also have "e @ quoteLoop U (drop w a) = quoteLoop U a"
      using qa Cons by (simp add: quoteLoop_Cons)
    finally show ?thesis .
  qed
qed

lemma cutsAt_append:
  "\<not> cutsAt (a @ s) (length a) \<Longrightarrow> cutsAt (a @ s) (length a + p) = cutsAt s p"
proof (induction "length a" arbitrary: a rule: less_induct)
  case less
  show ?case
  proof (cases a)
    case Nil
    then show ?thesis by simp
  next
    case (Cons c cs)
    then have ne: "a \<noteq> []" by simp
    obtain r w where d: "DecodeRune (a @ s) = (r, w)" by (cases "DecodeRune (a @ s)")
    from cutsAt_step[OF ne d less.prems]
    have w: "w \<le> length a" and c: "\<not> cutsAt (drop w a @ s) (length (drop w a))" by simp_all
    from DecodeRune_truncate[OF ne d w] have da: "DecodeRune a = (r, w)" .
    from DecodeRune_drop_shorter[OF ne da] have sh: "length (drop w a) < length a" .
    have ih: "cutsAt (drop w a @ s) (length (drop w a) + p) = cutsAt s p"
      by (rule less.hyps[OF sh c])
    have "cutsAt (a @ s) (length a + p) = cutsAt (drop w (a @ s)) (length a + p - w)"
      using ne d w by (subst cutsAt.simps) simp
    also have "drop w (a @ s) = drop w a @ s" using w by simp
    also have "length a + p - w = length (drop w a) + p" using w by simp
    finally show ?thesis using ih by simp
  qed
qed

lemma boundaries_Cons:
  "boundaries (c # d # cs) = length c # map (\<lambda>p. length c + p) (boundaries (d # cs))"
proof -
  have "[1..<length (c # d # cs)] = 1 # map Suc [1..<length (d # cs)]"
    by (simp add: upt_conv_Cons map_Suc_upt del: upt_Suc)
  then show ?thesis
    by (simp add: boundaries_def comp_def del: upt_Suc)
qed

lemma boundaries_single [simp]: "boundaries [c] = []"
  by (simp add: boundaries_def)

lemma uncut_Cons:
  assumes "uncut (c # cs)" and "cs \<noteq> []"
  shows "\<not> cutsAt (c @ concat cs) (length c) \<and> uncut cs"
proof -
  from assms(2) obtain d ds where cs: "cs = d # ds" by (cases cs) auto
  from assms(1) have h: "\<not> cutsAt (c @ concat cs) (length c)"
    and r: "\<forall>p \<in> set (boundaries (d # ds)). \<not> cutsAt (c @ concat cs) (length c + p)"
    unfolding uncut_def cs boundaries_Cons by (simp_all add: list_all_iff)
  have "\<forall>p \<in> set (boundaries (d # ds)). \<not> cutsAt (concat cs) p"
    using r cutsAt_append[OF h] by simp
  then show ?thesis using h by (simp add: uncut_def cs list_all_iff)
qed

lemma quoteLoop_uncut_concat:
  assumes "uncut cs"
  shows "concat (map (quoteLoop U) cs) = quoteLoop U (concat cs)"
  using assms
proof (induction cs)
  case Nil
  show ?case by simp
next
  case (Cons c cs)
  show ?case
  proof (cases "cs = []")
    case True
    then show ?thesis by simp
  next
    case False
    from uncut_Cons[OF Cons.prems False]
    have h: "\<not> cutsAt (c @ concat cs) (length c)" and u: "uncut cs" by simp_all
    show ?thesis using Cons.IH[OF u] quoteLoop_uncut_append[OF h, of U] by simp
  qed
qed


lemma oneShotBody_eq: "oneShotBody U bs = quoteLoop U bs"
  by (simp add: oneShotBody_def Let_def strconv_AppendQuote_def slice_def)

subsection \<open>Chunked and one-shot escaping\<close>

text \<open>
  Claim C10, as amended. The literal that \<open>quoteFile\<close> produces chunk by chunk is
  character for character the one-shot literal of the whole contents whenever no chunk
  ends inside a well-formed multi-byte UTF-8 sequence of the contents (so for ASCII
  contents, for files of at most \<open>BUFSIZE\<close> bytes, and wherever the buffers end on
  ill-formed bytes or between characters). In the counterexample a two-byte character
  lies across the end of the first buffer: chunk by chunk its bytes are written as two
  hexadecimal escapes, in one shot as the character itself.
\<close>

theorem chunked_equals_one_shot:
  "(os_Open W fn = Inr (map (\<lambda>c. (c, None)) cs) \<and> uncut cs
      \<longrightarrow> fst (quoteFile U W [] fn) = [dquote] @ oneShotBody U (concat cs) @ [dquote])
   \<and> (os_Open W fn = Inr (regular_file bs) \<and> uncut (chunks BUFSIZE bs)
      \<longrightarrow> fst (quoteFile U W [] fn) = [dquote] @ oneShotBody U bs @ [dquote])"
proof -
  have a: "os_Open W fn = Inr (map (\<lambda>c. (c, None)) cs) \<Longrightarrow> uncut cs
      \<Longrightarrow> fst (quoteFile U W [] fn) = [dquote] @ oneShotBody U (concat cs) @ [dquote]" for cs
    by (simp add: quoteFile_def quoteLoopFile_chunks quoteLoop_uncut_concat oneShotBody_eq)
  have b: "concat (chunks BUFSIZE bs) = bs" by (rule concat_chunks) (simp add: BUFSIZE_def)
  show ?thesis
    using a[of cs] a[of "chunks BUFSIZE bs"] b by (simp add: regular_file_def)
qed

lemma quoteLoop_replicate_a:
  "quoteLoop U (replicate n (CHR ''a'') @ s) = replicate n (CHR ''a'') @ quoteLoop U s"
proof (induction n)
  case 0
  show ?case by simp
next
  case (Suc n)
  have "quoteStep U (CHR ''a'' # replicate n (CHR ''a'') @ s) = (''a'', 1)"
    by (simp add: quoteStep_def RuneSelf_def RuneError_def appendEscapedRune_def
        strconv_IsPrint_def EncodeRune_def char_of_eq_iff)
  then show ?case using Suc by (simp add: quoteLoop_Cons)
qed

lemma cutsAt_replicate_a:
  "cutsAt (replicate n (CHR ''a'') @ s) (n + p) = cutsAt s p"
proof (induction n)
  case 0
  show ?case by simp
next
  case (Suc n)
  have d: "DecodeRune (CHR ''a'' # replicate n (CHR ''a'') @ s) = (0x61, 1)"
    by (simp add: DecodeRune_ascii)
  have "cutsAt (replicate (Suc n) (CHR ''a'') @ s) (Suc n + p)
          = cutsAt (replicate n (CHR ''a'') @ s) (n + p)"
    by (subst cutsAt.simps) (simp add: d)
  then show ?case using Suc by simp
qed

lemma chunks_two:
  assumes "length xs = n" and "0 < n" and "ys \<noteq> []" and "length ys \<le> n"
  shows "chunks n (xs @ ys) = [xs, ys]"
proof -
  have "chunks n (xs @ ys) = take n (xs @ ys) # chunks n (drop n (xs @ ys))"
    using assms by (subst chunks.simps) simp
  also have "\<dots> = xs # chunks n ys" using assms by simp
  also have "chunks n ys = [ys]"
    using assms by (subst chunks.simps) (simp add: chunks.simps)
  finally show ?thesis .
qed

lemma split_example_chunks:
  "chunks BUFSIZE split_example = [replicate 4095 (CHR ''a'') @ [CHR 0xC3], [CHR 0xA9]]"
proof -
  have "split_example = (replicate 4095 (CHR ''a'') @ [CHR 0xC3]) @ [CHR 0xA9]"
    by (simp add: split_example_def)
  then show ?thesis
    using chunks_two[of "replicate 4095 (CHR ''a'') @ [CHR 0xC3]" 4096 "[CHR 0xA9]"]
    by (simp add: BUFSIZE_def)
qed

lemma mixed_example_chunks:
  "chunks BUFSIZE mixed_example
     = [replicate 4095 (CHR ''a'') @ [CHR 0xFF], [CHR 0xC3, CHR 0xA9]]"
proof -
  have "mixed_example = (replicate 4095 (CHR ''a'') @ [CHR 0xFF]) @ [CHR 0xC3, CHR 0xA9]"
    by (simp add: mixed_example_def)
  then show ?thesis
    using chunks_two[of "replicate 4095 (CHR ''a'') @ [CHR 0xFF]" 4096 "[CHR 0xC3, CHR 0xA9]"]
    by (simp add: BUFSIZE_def)
qed

lemma mixed_example_uncut: "uncut (chunks BUFSIZE mixed_example)"
proof -
  have t: "\<not> cutsAt [CHR 0xFF, CHR 0xC3, CHR 0xA9] 1" by code_simp
  have "\<not> cutsAt (replicate 4095 (CHR ''a'') @ [CHR 0xFF, CHR 0xC3, CHR 0xA9]) (4095 + 1)"
    unfolding cutsAt_replicate_a by (rule t)
  then show ?thesis
    by (simp add: uncut_def boundaries_def mixed_example_chunks)
qed

theorem chunked_equals_one_shot_witness:
  "fst (quoteFile latin1_tables
          (reader_world [([CHR 0xFF, CHR ''a''], None), ([CHR 0xC3, CHR 0xA9], None)]) [] ''pipe'')
     = [dquote] @ oneShotBody latin1_tables [CHR 0xFF, CHR ''a'', CHR 0xC3, CHR 0xA9] @ [dquote]
   \<and> fst (quoteFile latin1_tables (reader_world (regular_file mixed_example)) [] ''mixed.txt'')
     = [dquote] @ oneShotBody latin1_tables mixed_example @ [dquote]"
proof -
  let ?cs = "[[CHR 0xFF, CHR ''a''], [CHR 0xC3, CHR 0xA9]]"
  have o1: "os_Open (reader_world [([CHR 0xFF, CHR ''a''], None), ([CHR 0xC3, CHR 0xA9], None)]) ''pipe''
              = Inr (map (\<lambda>c. (c, None)) ?cs)"
    by (simp add: reader_world_def)
  have u1: "uncut ?cs" by code_simp
  have o2: "os_Open (reader_world (regular_file mixed_example)) ''mixed.txt''
              = Inr (regular_file mixed_example)"
    by (simp add: reader_world_def)
  from chunked_equals_one_shot[where W = "reader_world [([CHR 0xFF, CHR ''a''], None), ([CHR 0xC3, CHR 0xA9], None)]"
      and fn = "''pipe''" and cs = ?cs and U = latin1_tables, THEN conjunct1] o1 u1
  have a: "fst (quoteFile latin1_tables
          (reader_world [([CHR 0xFF, CHR ''a''], None), ([CHR 0xC3, CHR 0xA9], None)]) [] ''pipe'')
     = [dquote] @ oneShotBody latin1_tables [CHR 0xFF, CHR ''a'', CHR 0xC3, CHR 0xA9] @ [dquote]"
    by simp
  from chunked_equals_one_shot[where W = "reader_world (regular_file mixed_example)"
      and fn = "''mixed.txt''" and bs = mixed_example and U = latin1_tables, THEN conjunct2]
    o2 mixed_example_uncut
  have b: "fst (quoteFile latin1_tables (reader_world (regular_file mixed_example)) [] ''mixed.txt'')
     = [dquote] @ oneShotBody latin1_tables mixed_example @ [dquote]"
    by blast
  show ?thesis using a b by blast
qed

theorem chunked_equals_one_shot_counterexample:
  "fst (quoteFile latin1_tables split_world [] ''split.txt'')
     \<noteq> [dquote] @ oneShotBody latin1_tables split_example @ [dquote]"
proof -
  let ?A = "replicate 4095 (CHR ''a'')"
  have c1: "quoteLoop latin1_tables (?A @ [CHR 0xC3]) = ?A @ [bslash, CHR ''x'', CHR ''c'', CHR ''3'']"
    unfolding quoteLoop_replicate_a by code_simp
  have c2: "quoteLoop latin1_tables [CHR 0xA9] = [bslash, CHR ''x'', CHR ''a'', CHR ''9'']"
    by code_simp
  have one: "quoteLoop latin1_tables split_example = ?A @ [CHR 0xC3, CHR 0xA9]"
    unfolding split_example_def quoteLoop_replicate_a by code_simp
  have ql: "quoteLoopFile latin1_tables [(?A @ [CHR 0xC3], None), ([CHR 0xA9], None)] [dquote]
          = ([dquote] @ quoteLoop latin1_tables (?A @ [CHR 0xC3])
               @ quoteLoop latin1_tables [CHR 0xA9] @ [dquote], None)"
    using quoteLoopFile_chunks[of latin1_tables "[?A @ [CHR 0xC3], [CHR 0xA9]]" "[dquote]"]
    by (simp del: quoteLoopFile.simps)
  have "fst (quoteFile latin1_tables split_world [] ''split.txt'')
          = [dquote] @ ?A @ [bslash, CHR ''x'', CHR ''c'', CHR ''3'', bslash, CHR ''x'', CHR ''a'', CHR ''9'']
              @ [dquote]"
    by (simp add: quoteFile_def split_world_def regular_file_def split_example_chunks
        ql c1 c2 del: quoteLoopFile.simps)
  then show ?thesis
    by (simp add: oneShotBody_eq one)
qed







subsection \<open>Determinism\<close>





end
